theory Spec2Isabelle
  imports Main "HOL-Library.Monad_Syntax" "HOL-Library.Sublist"
begin

section \<open>The directory tree view of the Midnight Commander (src/filemanager/tree.c)\<close>

subsection \<open>Data model\<close>

text \<open>
  Pointers to \<^verbatim>\<open>tree_entry\<close> are addresses; \<^verbatim>\<open>NULL\<close> is \<open>None\<close>.
\<close>

type_synonym addr = nat
type_synonym ptr = "addr option"

text \<open>
  Modelled from the spec: the declaration of \<^verbatim>\<open>tree_entry\<close> (treestore.h) is not part
  of the sources at hand. The fields are the ones tree.c reads: the full path \<^verbatim>\<open>name\<close>, the
  nesting level \<^verbatim>\<open>sublevel\<close>, the connector mask \<^verbatim>\<open>submask\<close>, the last path component
  \<^verbatim>\<open>subname\<close>, and the links \<^verbatim>\<open>next\<close> and \<^verbatim>\<open>prev\<close> of the doubly linked sequence.
\<close>

record tree_entry =
  name :: string
  sublevel :: int
  submask :: int
  subname :: string
  "next" :: ptr
  prev :: ptr

text \<open>
  Modelled from the spec: \<^verbatim>\<open>struct TreeStore\<close> (treestore.h) with the two fields tree.c
  reads, \<^verbatim>\<open>tree_first\<close> and \<^verbatim>\<open>tree_last\<close>. The memory holding the entries is the field
  \<open>mem\<close>: an address that \<open>mem\<close> does not map is not an allocated entry.
\<close>

record TreeStore =
  tree_first :: ptr
  tree_last :: ptr
  mem :: "addr \<Rightarrow> tree_entry option"

text \<open>
  \<^verbatim>\<open>struct WTree\<close>. Of the embedded \<^verbatim>\<open>Widget\<close> only \<^verbatim>\<open>lines\<close> is kept; \<^verbatim>\<open>tree_shown\<close>
  (the rows on screen) is not modelled. The store is shared through a pointer in C; here
  the view state carries the store it looks at.
\<close>

record WTree =
  lines :: int
  store :: TreeStore
  selected_ptr :: ptr
  search_buffer :: string
  is_panel :: bool
  active :: bool
  searching :: bool
  topdiff :: int

text \<open>
  The process-wide variables the view reads: \<^verbatim>\<open>tree_navigation_flag\<close> (file scope in tree.c,
  \<open>True\<close> is the hierarchical mode), \<^verbatim>\<open>panels_options.show_mini_info\<close> and the global
  \<^verbatim>\<open>int xtree_mode\<close> of tree.c.
\<close>

record globals =
  tree_navigation_flag :: bool
  show_mini_info :: bool
  xtree_mode :: int

text \<open>
  The macro \<^verbatim>\<open>tlines\<close>. The C type is \<^verbatim>\<open>int\<close>; it is modelled by the unbounded
  integers, since the row counts and offsets of a terminal are far from the 32-bit limits.
\<close>

definition tlines :: "globals \<Rightarrow> WTree \<Rightarrow> int" where
  "tlines g t =
     (if is_panel t then lines t - 2 - (if show_mini_info g then 2 else 0) else lines t)"

subsection \<open>Focus correction\<close>

definition tree_check_focus :: "globals \<Rightarrow> WTree \<Rightarrow> WTree" where
  "tree_check_focus g t =
     (if topdiff t < 3 then t\<lparr>topdiff := 3\<rparr>
      else if topdiff t \<ge> tlines g t - 3 then t\<lparr>topdiff := tlines g t - 3 - 1\<rparr>
      else t)"


subsection \<open>Pointers into the store\<close>

text \<open>
  Reading through a pointer. The result is \<open>None\<close> where the C program has no defined
  behaviour: the pointer is \<^verbatim>\<open>NULL\<close> or does not point to an entry of the store. In all
  functions below \<open>None\<close> stands for "the call yields no result": it reads through such
  a pointer, or it never returns.
\<close>

definition deref :: "(addr \<Rightarrow> tree_entry option) \<Rightarrow> ptr \<Rightarrow> tree_entry option" where
  "deref h p = (case p of None \<Rightarrow> None | Some a \<Rightarrow> h a)"

text \<open>
  \<^verbatim>\<open>back_ptr\<close> and \<^verbatim>\<open>forw_ptr\<close>: the loop
  \<^verbatim>\<open>while (ptr && ptr->prev && i < *count) { ptr = ptr->prev; i++; }\<close>
  and the pair of the returned pointer and the value stored to \<^verbatim>\<open>*count\<close>.
\<close>

function back_loop ::
  "(addr \<Rightarrow> tree_entry option) \<Rightarrow> int \<Rightarrow> ptr \<Rightarrow> int \<Rightarrow> (ptr \<times> int) option" where
  "back_loop h count p i =
     (case p of
        None \<Rightarrow> Some (p, i)
      | Some a \<Rightarrow>
          (case h a of
             None \<Rightarrow> None
           | Some e \<Rightarrow>
               if prev e \<noteq> None \<and> i < count then back_loop h count (prev e) (i + 1)
               else Some (p, i)))"
  by pat_completeness auto
termination
  by (relation "measure (\<lambda>(h, count, p, i). nat (count - i))") auto

definition back_ptr :: "(addr \<Rightarrow> tree_entry option) \<Rightarrow> ptr \<Rightarrow> int \<Rightarrow> (ptr \<times> int) option" where
  "back_ptr h p count = back_loop h count p 0"

function forw_loop ::
  "(addr \<Rightarrow> tree_entry option) \<Rightarrow> int \<Rightarrow> ptr \<Rightarrow> int \<Rightarrow> (ptr \<times> int) option" where
  "forw_loop h count p i =
     (case p of
        None \<Rightarrow> Some (p, i)
      | Some a \<Rightarrow>
          (case h a of
             None \<Rightarrow> None
           | Some e \<Rightarrow>
               if next e \<noteq> None \<and> i < count then forw_loop h count (next e) (i + 1)
               else Some (p, i)))"
  by pat_completeness auto
termination
  by (relation "measure (\<lambda>(h, count, p, i). nat (count - i))") auto

definition forw_ptr :: "(addr \<Rightarrow> tree_entry option) \<Rightarrow> ptr \<Rightarrow> int \<Rightarrow> (ptr \<times> int) option" where
  "forw_ptr h p count = forw_loop h count p 0"

subsection \<open>The removal hook\<close>

text \<open>\<^verbatim>\<open>remove_callback (entry, data)\<close>, with \<open>t\<close> the view behind \<^verbatim>\<open>data\<close>.\<close>

definition remove_callback :: "ptr \<Rightarrow> WTree \<Rightarrow> WTree option" where
  "remove_callback entry t =
     (if selected_ptr t = entry then do {
        se \<leftarrow> deref (mem (store t)) (selected_ptr t);
        if next se \<noteq> None then Some (t\<lparr>selected_ptr := next se\<rparr>)
        else Some (t\<lparr>selected_ptr := prev se\<rparr>)
      } else Some t)"

subsection \<open>Moving the selection\<close>

text \<open>
  The loop of \<^verbatim>\<open>tree_move_backward\<close> in the hierarchical mode. Its state is
  \<^verbatim>\<open>current\<close>, \<^verbatim>\<open>tree->selected_ptr\<close> and \<^verbatim>\<open>j\<close>; it returns the last two.
\<close>

partial_function (option) move_backward_loop ::
  "(addr \<Rightarrow> tree_entry option) \<Rightarrow> int \<Rightarrow> ptr \<Rightarrow> ptr \<Rightarrow> int \<Rightarrow> (ptr \<times> int) option" where
  "move_backward_loop h i current sel j =
     (if j < i then do {
        ce \<leftarrow> deref h current;
        if prev ce = None then Some (sel, j)
        else do {
          pe \<leftarrow> deref h (prev ce);
          se \<leftarrow> deref h sel;
          if sublevel pe \<ge> sublevel se then
            (if sublevel pe = sublevel se
             then move_backward_loop h i (prev ce) (prev ce) (j + 1)
             else move_backward_loop h i (prev ce) sel j)
          else Some (sel, j)
        }
      } else Some (sel, j))"

definition tree_move_backward :: "globals \<Rightarrow> WTree \<Rightarrow> int \<Rightarrow> WTree option" where
  "tree_move_backward g t i =
     (if \<not> tree_navigation_flag g then do {
        (p, i') \<leftarrow> back_ptr (mem (store t)) (selected_ptr t) i;
        Some (tree_check_focus g (t\<lparr>selected_ptr := p, topdiff := topdiff t - i'\<rparr>))
      } else do {
        (p, j) \<leftarrow> move_backward_loop (mem (store t)) i (selected_ptr t) (selected_ptr t) 0;
        Some (tree_check_focus g (t\<lparr>selected_ptr := p, topdiff := topdiff t - j\<rparr>))
      })"

partial_function (option) move_forward_loop ::
  "(addr \<Rightarrow> tree_entry option) \<Rightarrow> int \<Rightarrow> ptr \<Rightarrow> ptr \<Rightarrow> int \<Rightarrow> (ptr \<times> int) option" where
  "move_forward_loop h i current sel j =
     (if j < i then do {
        ce \<leftarrow> deref h current;
        if next ce = None then Some (sel, j)
        else do {
          ne \<leftarrow> deref h (next ce);
          se \<leftarrow> deref h sel;
          if sublevel ne \<ge> sublevel se then
            (if sublevel ne = sublevel se
             then move_forward_loop h i (next ce) (next ce) (j + 1)
             else move_forward_loop h i (next ce) sel j)
          else Some (sel, j)
        }
      } else Some (sel, j))"

definition tree_move_forward :: "globals \<Rightarrow> WTree \<Rightarrow> int \<Rightarrow> WTree option" where
  "tree_move_forward g t i =
     (if \<not> tree_navigation_flag g then do {
        (p, i') \<leftarrow> forw_ptr (mem (store t)) (selected_ptr t) i;
        Some (tree_check_focus g (t\<lparr>selected_ptr := p, topdiff := topdiff t + i'\<rparr>))
      } else do {
        (p, j) \<leftarrow> move_forward_loop (mem (store t)) i (selected_ptr t) (selected_ptr t) 0;
        Some (tree_check_focus g (t\<lparr>selected_ptr := p, topdiff := topdiff t + j\<rparr>))
      })"

definition tree_move_to_top :: "WTree \<Rightarrow> WTree" where
  "tree_move_to_top t = t\<lparr>selected_ptr := tree_first (store t), topdiff := 0\<rparr>"

definition tree_move_to_bottom :: "globals \<Rightarrow> WTree \<Rightarrow> WTree" where
  "tree_move_to_bottom g t =
     t\<lparr>selected_ptr := tree_last (store t), topdiff := tlines g t - 3 - 1\<rparr>"

text \<open>
  The loop of \<^verbatim>\<open>tree_move_to_parent\<close>:
  \<^verbatim>\<open>while (current && current->sublevel >= tree->selected_ptr->sublevel)\<close>, with the
  running value of \<^verbatim>\<open>tree->topdiff\<close>.
\<close>

partial_function (option) move_to_parent_loop ::
  "(addr \<Rightarrow> tree_entry option) \<Rightarrow> ptr \<Rightarrow> ptr \<Rightarrow> int \<Rightarrow> (ptr \<times> int) option" where
  "move_to_parent_loop h sel current td =
     (case current of
        None \<Rightarrow> Some (current, td)
      | Some c \<Rightarrow> do {
          ce \<leftarrow> h c;
          se \<leftarrow> deref h sel;
          if sublevel ce \<ge> sublevel se then move_to_parent_loop h sel (prev ce) (td - 1)
          else Some (current, td)
        })"

text \<open>The result is the new view state and the returned \<^verbatim>\<open>gboolean\<close>.\<close>

definition tree_move_to_parent :: "globals \<Rightarrow> WTree \<Rightarrow> (WTree \<times> bool) option" where
  "tree_move_to_parent g t =
     (if selected_ptr t = None then Some (t, False)
      else do {
        let old = selected_ptr t;
        se \<leftarrow> deref (mem (store t)) (selected_ptr t);
        (current, td) \<leftarrow> move_to_parent_loop (mem (store t)) (selected_ptr t) (prev se) (topdiff t);
        let current = (if current = None then tree_first (store t) else current);
        let t' = tree_check_focus g (t\<lparr>selected_ptr := current, topdiff := td\<rparr>);
        Some (t', selected_ptr t' \<noteq> old)
      })"


subsection \<open>The rescan event and the move to a child\<close>

text \<open>
  What tree.c takes from headers and collaborators that are not part of the sources at
  hand, as parameters:
  \<^item> \<^verbatim>\<open>MC_MAXFILENAMELEN\<close>, the size of \<^verbatim>\<open>search_buffer\<close>, and the key code
    \<^verbatim>\<open>KEY_BACKSPACE\<close>;
  \<^item> \<^verbatim>\<open>vfs_get_raw_current_dir\<close> (\<open>None\<close> when \<^verbatim>\<open>vfs_path_clone\<close> of it is \<^verbatim>\<open>NULL\<close>) and
    \<^verbatim>\<open>mc_chdir\<close> (0 on success);
  \<^item> \<^verbatim>\<open>tree_store_rescan\<close>, which rebuilds the part of the store under a path. It may
    remove entries, and the removal hook then reseats the selection of the view: so it
    maps the store and the selection to the new store and the new selection;
  \<^item> \<^verbatim>\<open>is_idle\<close>, and the two calls by which the handler of the event "enter" works on
    the panels: \<^verbatim>\<open>change_panel\<close>, and \<^verbatim>\<open>do_cd\<close> with what follows it on the other panel
    (\<^verbatim>\<open>select_item\<close> or \<^verbatim>\<open>message\<close>, and \<^verbatim>\<open>widget_redraw\<close>). What these calls do to the
    view, through the messages and events that reach it, is their value here.
\<close>

record extern =
  MC_MAXFILENAMELEN :: nat
  KEY_BACKSPACE :: int
  vfs_get_raw_current_dir :: "string option"
  mc_chdir :: "string \<Rightarrow> int"
  tree_store_rescan :: "string \<Rightarrow> TreeStore \<times> ptr \<Rightarrow> TreeStore \<times> ptr"
  is_idle :: bool
  change_panel :: "WTree \<Rightarrow> WTree"
  do_cd :: "string \<Rightarrow> WTree \<Rightarrow> WTree"

text \<open>The handler \<^verbatim>\<open>mc_tree_cmd_rescan\<close> of the event "rescan" (it always returns TRUE).\<close>

definition mc_tree_cmd_rescan :: "extern \<Rightarrow> WTree \<Rightarrow> WTree option" where
  "mc_tree_cmd_rescan x t =
     (case vfs_get_raw_current_dir x of
        None \<Rightarrow> Some t
      | Some old_vpath \<Rightarrow>
          if selected_ptr t \<noteq> None then do {
            se \<leftarrow> deref (mem (store t)) (selected_ptr t);
            if mc_chdir x (name se) = 0 then
              (case tree_store_rescan x (name se) (store t, selected_ptr t) of
                 (st, sel) \<Rightarrow> Some (t\<lparr>store := st, selected_ptr := sel\<rparr>))
            else Some t
          } else Some t)"

text \<open>
  The test of \<^verbatim>\<open>tree_move_to_child\<close>, made before and after the rescan:
  \<^verbatim>\<open>current = tree->selected_ptr->next\<close>, then
  \<^verbatim>\<open>current && current->sublevel > tree->selected_ptr->sublevel\<close>. It yields \<^verbatim>\<open>current\<close>
  and the truth value.
\<close>

definition child_test :: "WTree \<Rightarrow> (ptr \<times> bool) option" where
  "child_test t = do {
     se \<leftarrow> deref (mem (store t)) (selected_ptr t);
     let current = next se;
     if current = None then Some (current, False)
     else do {
       ce \<leftarrow> deref (mem (store t)) current;
       Some (current, sublevel ce > sublevel se)
     }
   }"

text \<open>
  \<^verbatim>\<open>tree_move_to_child\<close>. Beside the new view state the model returns the names of the
  events the call raised in the group of the tree view, in order: the only call of
  \<^verbatim>\<open>mc_event_raise\<close> in the function raises "rescan", which init_events maps to
  \<^verbatim>\<open>mc_tree_cmd_rescan\<close>.
\<close>

definition tree_move_to_child :: "extern \<Rightarrow> globals \<Rightarrow> WTree \<Rightarrow> (WTree \<times> string list) option" where
  "tree_move_to_child x g t =
     (if selected_ptr t = None then Some (t, [])
      else do {
        (current, is_child) \<leftarrow> child_test t;
        if is_child then
          Some (tree_check_focus g (t\<lparr>selected_ptr := current, topdiff := topdiff t + 1\<rparr>), [])
        else do {
          t1 \<leftarrow> mc_tree_cmd_rescan x t;
          (current, is_child) \<leftarrow> child_test t1;
          if is_child then
            Some (tree_check_focus g (t1\<lparr>selected_ptr := current, topdiff := topdiff t1 + 1\<rparr>),
                  [''rescan''])
          else Some (t1, [''rescan''])
        }
      })"

subsection \<open>Incremental search\<close>

text \<open>
  \<^verbatim>\<open>strncmp (s1, s2, n) == 0\<close> for C strings, which are the lists of their characters
  before the terminating NUL.
\<close>

definition strncmp_eq :: "string \<Rightarrow> string \<Rightarrow> nat \<Rightarrow> bool" where
  "strncmp_eq s1 s2 n \<longleftrightarrow> take n s1 = take n s2"

text \<open>
  The loop of \<^verbatim>\<open>search_tree\<close>, \<^verbatim>\<open>while (!wrapped || current != tree->selected_ptr)\<close>. Its
  state is \<^verbatim>\<open>current\<close>, \<^verbatim>\<open>wrapped\<close> and the running \<^verbatim>\<open>tree->topdiff\<close>; it returns the
  selection, \<^verbatim>\<open>found\<close> and \<^verbatim>\<open>tree->topdiff\<close>.
\<close>

partial_function (option) search_loop ::
  "(addr \<Rightarrow> tree_entry option) \<Rightarrow> ptr \<Rightarrow> ptr \<Rightarrow> string \<Rightarrow> ptr \<Rightarrow> bool \<Rightarrow> int
     \<Rightarrow> (ptr \<times> bool \<times> int) option" where
  "search_loop h first sel text current wrapped td =
     (if \<not> wrapped \<or> current \<noteq> sel then do {
        ce \<leftarrow> deref h current;
        if strncmp_eq (subname ce) text (length text) then Some (current, True, td)
        else if next ce = None then search_loop h first sel text first True (td + 1)
        else search_loop h first sel text (next ce) wrapped (td + 1)
      } else Some (sel, False, td))"

definition search_tree :: "globals \<Rightarrow> WTree \<Rightarrow> string \<Rightarrow> (WTree \<times> bool) option" where
  "search_tree g t text = do {
     (sel, found, td) \<leftarrow>
       search_loop (mem (store t)) (tree_first (store t)) (selected_ptr t) text
         (selected_ptr t) False (topdiff t);
     Some (tree_check_focus g (t\<lparr>selected_ptr := sel, topdiff := td\<rparr>), found)
   }"

subsection \<open>Drawing the view\<close>

text \<open>
  lib/global.h and lib/vfs are not part of the sources at hand. \<^verbatim>\<open>PATH_SEP\<close> is the slash.
  A path is modelled by its string: \<^verbatim>\<open>vfs_path_equal\<close> is equality of the strings,
  \<^verbatim>\<open>vfs_path_equal_len\<close> is \<^verbatim>\<open>strncmp\<close> on them and \<^verbatim>\<open>vfs_path_len\<close> is \<^verbatim>\<open>strlen\<close>.
\<close>

definition PATH_SEP :: char where
  "PATH_SEP = CHR ''/''"

text \<open>
  The loop \<^verbatim>\<open>for (j = strlen (cname) - 1; cname[j] != PATH_SEP; j--);\<close> leaves in \<open>j\<close> the
  index of the last separator of \<open>cname\<close>. For a name without separator it reads before
  the start of the string: no result.
\<close>

definition last_sep :: "string \<Rightarrow> nat option" where
  "last_sep cname =
     (case dropWhile (\<lambda>c. c \<noteq> PATH_SEP) (rev cname) of
        [] \<Rightarrow> None
      | c # front \<Rightarrow> Some (length front))"

text \<open>
  The test by which \<^verbatim>\<open>show_tree\<close>, in the hierarchical mode, counts the entry \<open>ce\<close> as a
  row above the selected entry \<open>se\<close>: the three branches on the levels of the two.
\<close>

definition counts_as_row :: "tree_entry \<Rightarrow> tree_entry \<Rightarrow> bool option" where
  "counts_as_row ce se =
     (if sublevel ce < sublevel se then Some (name ce = name se)
      else if sublevel ce = sublevel se then do {
        j \<leftarrow> last_sep (name ce);
        Some (strncmp_eq (name ce) (name se) j)
      }
      else Some (sublevel ce = sublevel se + 1 \<and> length (name se) > 1
                 \<and> strncmp_eq (name ce) (name se) (length (name se))))"

text \<open>
  The loop \<^verbatim>\<open>while (current->prev && i < tree->topdiff)\<close> of \<^verbatim>\<open>show_tree\<close>, which looks
  for the entry of the top row in the hierarchical mode. It returns \<^verbatim>\<open>current\<close> and \<open>i\<close>.
\<close>

partial_function (option) show_tree_loop ::
  "(addr \<Rightarrow> tree_entry option) \<Rightarrow> ptr \<Rightarrow> int \<Rightarrow> ptr \<Rightarrow> int \<Rightarrow> (ptr \<times> int) option" where
  "show_tree_loop h sel td current i = do {
     ce \<leftarrow> deref h current;
     if prev ce \<noteq> None \<and> i < td then do {
       pe \<leftarrow> deref h (prev ce);
       se \<leftarrow> deref h sel;
       c \<leftarrow> counts_as_row pe se;
       show_tree_loop h sel td (prev ce) (if c then i + 1 else i)
     } else Some (current, i)
   }"

text \<open>
  \<^verbatim>\<open>show_tree\<close>, as far as it changes the fields of the view that are modelled: without
  a selection it selects the first entry and resets the offset; then it walks back from
  the selection to the entry of the top row and stores the number of rows it found in
  \<^verbatim>\<open>topdiff\<close>. The drawing that follows writes the screen and \<^verbatim>\<open>tree_shown\<close> only and is
  not modelled.
\<close>

definition show_tree :: "globals \<Rightarrow> WTree \<Rightarrow> WTree option" where
  "show_tree g t = do {
     let t0 = (if selected_ptr t = None
               then t\<lparr>selected_ptr := tree_first (store t), topdiff := 0\<rparr> else t);
     if \<not> tree_navigation_flag g then do {
       (current, i) \<leftarrow> back_ptr (mem (store t0)) (selected_ptr t0) (topdiff t0);
       Some (t0\<lparr>topdiff := i\<rparr>)
     } else do {
       (current, i) \<leftarrow>
         show_tree_loop (mem (store t0)) (selected_ptr t0) (topdiff t0) (selected_ptr t0) 0;
       Some (t0\<lparr>topdiff := i\<rparr>)
     }
   }"

text \<open>
  The handler \<^verbatim>\<open>mc_tree_cmd_enter\<close> of the event "enter" (it always returns TRUE). In a
  dialog it stops the dialog, which leaves the view as it is.
\<close>

definition mc_tree_cmd_enter :: "extern \<Rightarrow> globals \<Rightarrow> WTree \<Rightarrow> WTree option" where
  "mc_tree_cmd_enter x g t =
     (if is_panel t then do {
        let t1 = change_panel x t;
        se \<leftarrow> deref (mem (store t1)) (selected_ptr t1);
        let t2 = do_cd x (name se) t1;
        let t3 = change_panel x t2;
        show_tree g t3
      } else Some t)"

definition maybe_chdir :: "extern \<Rightarrow> globals \<Rightarrow> WTree \<Rightarrow> WTree option" where
  "maybe_chdir x g t =
     (if xtree_mode g \<noteq> 0 \<and> is_panel t \<and> is_idle x then mc_tree_cmd_enter x g t
      else Some t)"

subsection \<open>A key of the search\<close>

text \<open>
  \<^verbatim>\<open>tree_do_search\<close>. \<open>l\<close> is the C variable of that name. A key whose character is NUL
  ends the string where it is stored. The write of the terminating NUL at index
  \<^verbatim>\<open>sizeof (search_buffer)\<close>, past the end of the array, and the write at index \<open>-1\<close> have
  no defined result.
\<close>

definition tree_do_search :: "extern \<Rightarrow> globals \<Rightarrow> WTree \<Rightarrow> int \<Rightarrow> WTree option" where
  "tree_do_search x g t key = do {
     let l = length (search_buffer t);
     (buf, l) \<leftarrow>
       (if l \<noteq> 0 \<and> key = KEY_BACKSPACE x then Some (take (l - 1) (search_buffer t), l - 1)
        else if key \<noteq> 0 \<and> l < MC_MAXFILENAMELEN x then
          (if l + 1 < MC_MAXFILENAMELEN x then
             Some (if (char_of key :: char) = CHR 0x00 then search_buffer t
                   else search_buffer t @ [char_of key], l + 1)
           else None)
        else Some (search_buffer t, l));
     (t1, found) \<leftarrow> search_tree g (t\<lparr>search_buffer := buf\<rparr>) buf;
     t2 \<leftarrow> (if \<not> found then
             (if l = 0 then None else Some (t1\<lparr>search_buffer := take (l - 1) buf\<rparr>))
           else Some t1);
     t3 \<leftarrow> show_tree g t2;
     maybe_chdir x g t3
   }"

subsection \<open>The store as a sequence\<close>

text \<open>
  The store keeps its entries in one doubly linked sequence. \<open>chain h p es\<close> says that
  the memory \<open>h\<close> holds the entries \<open>es\<close> (each with its address) linked in this order,
  \<open>p\<close> being the \<^verbatim>\<open>prev\<close> link of the first one; \<open>store_list st es\<close> that the store \<open>st\<close>
  is exactly this sequence, from \<^verbatim>\<open>tree_first\<close> to \<^verbatim>\<open>tree_last\<close>, without repetition.
\<close>

fun chain :: "(addr \<Rightarrow> tree_entry option) \<Rightarrow> ptr \<Rightarrow> (addr \<times> tree_entry) list \<Rightarrow> bool" where
  "chain h p [] = True"
| "chain h p ((a, e) # es) =
     (h a = Some e \<and> prev e = p \<and>
      next e = (case es of [] \<Rightarrow> None | (b, _) # _ \<Rightarrow> Some b) \<and>
      chain h (Some a) es)"

definition store_list :: "TreeStore \<Rightarrow> (addr \<times> tree_entry) list \<Rightarrow> bool" where
  "store_list st es \<longleftrightarrow>
     distinct (map fst es) \<and> chain (mem st) None es \<and>
     tree_first st = (case es of [] \<Rightarrow> None | (a, _) # _ \<Rightarrow> Some a) \<and>
     tree_last st = (if es = [] then None else Some (fst (last es)))"

text \<open>The neighbours of the \<open>i\<close>-th entry of the sequence.\<close>

definition next_of :: "(addr \<times> tree_entry) list \<Rightarrow> nat \<Rightarrow> ptr" where
  "next_of es i = (if Suc i < length es then Some (fst (es ! Suc i)) else None)"

definition prev_of :: "(addr \<times> tree_entry) list \<Rightarrow> nat \<Rightarrow> ptr" where
  "prev_of es i = (if i = 0 then None else Some (fst (es ! (i - 1))))"

text \<open>The level of the \<open>k\<close>-th entry of the sequence.\<close>

definition level :: "(addr \<times> tree_entry) list \<Rightarrow> nat \<Rightarrow> int" where
  "level es k = sublevel (snd (es ! k))"

text \<open>
  In a sequence in depth-first pre-order the level rises by at most one from an entry to
  the next: \<open>rises_by_one\<close>. The next entry of the \<open>s\<close>-th one is its child when it is exactly
  one level deeper: \<open>is_child\<close>.
\<close>

fun rises_by_one :: "(addr \<times> tree_entry) list \<Rightarrow> bool" where
  "rises_by_one (x # y # es) \<longleftrightarrow>
     sublevel (snd y) \<le> sublevel (snd x) + 1 \<and> rises_by_one (y # es)"
| "rises_by_one es \<longleftrightarrow> True"

definition is_child :: "(addr \<times> tree_entry) list \<Rightarrow> nat \<Rightarrow> bool" where
  "is_child es s \<longleftrightarrow> Suc s < length es \<and> level es (Suc s) = level es s + 1"





subsection \<open>The order of a search\<close>

text \<open>
  An entry matches a search text when the text is a prefix of its \<^verbatim>\<open>subname\<close>.
  \<open>scan_result text seg sel td\<close> describes a scan that examines the entries \<open>seg\<close> in
  this order, starting with the selection \<open>sel\<close> and the offset \<open>td\<close>: the first match
  becomes the selection, and the offset grows by the number of entries passed over.
\<close>

definition matches :: "string \<Rightarrow> addr \<times> tree_entry \<Rightarrow> bool" where
  "matches text ae \<longleftrightarrow> prefix text (subname (snd ae))"

definition scan_result ::
  "string \<Rightarrow> (addr \<times> tree_entry) list \<Rightarrow> ptr \<Rightarrow> int \<Rightarrow> ptr \<times> bool \<times> int" where
  "scan_result text seg sel td =
     (case find (matches text) seg of Some ae \<Rightarrow> Some (fst ae) | None \<Rightarrow> sel,
      find (matches text) seg \<noteq> None,
      td + int (length (takeWhile (\<lambda>ae. \<not> matches text ae) seg)))"

subsection \<open>Sequences of calls\<close>

text \<open>
  The selection is valid when it points to an entry of the sequence the store holds (so
  it is not \<^verbatim>\<open>NULL\<close>, and the store is not empty). A rescan of the store keeps it valid
  when the store it leaves is again a sequence and the selection it leaves, reseated by
  the removal hook where needed, is an entry of it.
\<close>

definition valid_selection :: "TreeStore \<Rightarrow> ptr \<Rightarrow> bool" where
  "valid_selection st sel \<longleftrightarrow>
     (\<exists>es s. store_list st es \<and> s < length es \<and> sel = Some (fst (es ! s)))"

definition rescan_keeps_valid :: "extern \<Rightarrow> bool" where
  "rescan_keeps_valid x \<longleftrightarrow>
     (\<forall>p st sel. valid_selection st sel \<longrightarrow>
        valid_selection (fst (tree_store_rescan x p (st, sel)))
                        (snd (tree_store_rescan x p (st, sel))))"

text \<open>
  The calls that move the selection, and a run of them. Each call of a run comes with
  the values the process-wide variables have when it is made.
\<close>

datatype command =
  Move_forward int | Move_backward int | Move_to_parent | Move_to_child
  | Move_to_top | Move_to_bottom

fun exec_command :: "extern \<Rightarrow> globals \<Rightarrow> command \<Rightarrow> WTree \<Rightarrow> WTree option" where
  "exec_command x g (Move_forward i) t = tree_move_forward g t i"
| "exec_command x g (Move_backward i) t = tree_move_backward g t i"
| "exec_command x g Move_to_parent t = map_option fst (tree_move_to_parent g t)"
| "exec_command x g Move_to_child t = map_option fst (tree_move_to_child x g t)"
| "exec_command x g Move_to_top t = Some (tree_move_to_top t)"
| "exec_command x g Move_to_bottom t = Some (tree_move_to_bottom g t)"

fun exec_commands :: "extern \<Rightarrow> (globals \<times> command) list \<Rightarrow> WTree \<Rightarrow> WTree option" where
  "exec_commands x [] t = Some t"
| "exec_commands x ((g, c) # cs) t =
     (case exec_command x g c t of None \<Rightarrow> None | Some t' \<Rightarrow> exec_commands x cs t')"

text \<open>The bound on the offset: at least 3, at most the number of visible rows minus 4.\<close>

definition in_bounds :: "globals \<Rightarrow> WTree \<Rightarrow> bool" where
  "in_bounds g t \<longleftrightarrow> 3 \<le> topdiff t \<and> topdiff t \<le> tlines g t - 4"

subsection \<open>A store of four directories\<close>

text \<open>
  The store \<open>/\<close> (level 0), \<open>/a\<close> (level 1), \<open>/a/x\<close> (level 2), \<open>/b\<close> (level 1), at the
  addresses 10, 20, 30 and 40, and a view of 20 lines on it.
\<close>

definition dir_root :: tree_entry where
  "dir_root = \<lparr>name = ''/'', sublevel = 0, submask = 0, subname = ''/'',
                next = Some 20, prev = None\<rparr>"

definition dir_a :: tree_entry where
  "dir_a = \<lparr>name = ''/a'', sublevel = 1, submask = 0, subname = ''a'',
             next = Some 30, prev = Some 10\<rparr>"

definition dir_ax :: tree_entry where
  "dir_ax = \<lparr>name = ''/a/x'', sublevel = 2, submask = 0, subname = ''x'',
              next = Some 40, prev = Some 20\<rparr>"

definition dir_b :: tree_entry where
  "dir_b = \<lparr>name = ''/b'', sublevel = 1, submask = 0, subname = ''b'',
             next = None, prev = Some 30\<rparr>"

definition dirs4 :: "(addr \<times> tree_entry) list" where
  "dirs4 = [(10, dir_root), (20, dir_a), (30, dir_ax), (40, dir_b)]"

definition store4 :: TreeStore where
  "store4 = \<lparr>tree_first = Some 10, tree_last = Some 40, mem = map_of dirs4\<rparr>"

definition view4 :: "ptr \<Rightarrow> int \<Rightarrow> WTree" where
  "view4 sel td = \<lparr>lines = 20, store = store4, selected_ptr = sel, search_buffer = [],
     is_panel = False, active = True, searching = False, topdiff = td\<rparr>"

definition flat_mode :: globals where
  "flat_mode = \<lparr>tree_navigation_flag = False, show_mini_info = False, xtree_mode = 0\<rparr>"

definition hier_mode :: globals where
  "hier_mode = \<lparr>tree_navigation_flag = True, show_mini_info = False, xtree_mode = 0\<rparr>"

text \<open>A store of three directories, two of whose names begin with the same letter.\<close>

definition dir_ab :: tree_entry where
  "dir_ab = \<lparr>name = ''/ab'', sublevel = 1, submask = 0, subname = ''ab'',
              next = Some 12, prev = None\<rparr>"

definition dir_ac :: tree_entry where
  "dir_ac = \<lparr>name = ''/ac'', sublevel = 1, submask = 0, subname = ''ac'',
              next = Some 13, prev = Some 11\<rparr>"

definition dir_d :: tree_entry where
  "dir_d = \<lparr>name = ''/d'', sublevel = 1, submask = 0, subname = ''d'',
             next = None, prev = Some 12\<rparr>"

definition dirs3 :: "(addr \<times> tree_entry) list" where
  "dirs3 = [(11, dir_ab), (12, dir_ac), (13, dir_d)]"

definition store3 :: TreeStore where
  "store3 = \<lparr>tree_first = Some 11, tree_last = Some 13, mem = map_of dirs3\<rparr>"

definition view3 :: "ptr \<Rightarrow> string \<Rightarrow> int \<Rightarrow> WTree" where
  "view3 sel buf td = \<lparr>lines = 20, store = store3, selected_ptr = sel, search_buffer = buf,
     is_panel = False, active = True, searching = True, topdiff = td\<rparr>"

text \<open>
  Collaborators that find a current directory, enter any directory and rescan nothing;
  the application is idle and the calls on the panels leave the view as it is.
\<close>

definition extern0 :: extern where
  "extern0 = \<lparr>MC_MAXFILENAMELEN = 256, KEY_BACKSPACE = 263,
     vfs_get_raw_current_dir = Some ''/'', mc_chdir = (\<lambda>p. 0),
     tree_store_rescan = (\<lambda>p s. s),
     is_idle = True, change_panel = (\<lambda>t. t), do_cd = (\<lambda>p t. t)\<rparr>"













section \<open>Properties\<close>

subsection \<open>Focus correction\<close>

lemma tlines_check_focus [simp]: "tlines g (tree_check_focus g t) = tlines g t"
  by (simp add: tree_check_focus_def tlines_def)

lemma topdiff_check_focus:
  "topdiff (tree_check_focus g t) =
     (if topdiff t < 3 then 3
      else if topdiff t \<ge> tlines g t - 3 then tlines g t - 4 else topdiff t)"
  by (simp add: tree_check_focus_def)

lemma selected_check_focus [simp]: "selected_ptr (tree_check_focus g t) = selected_ptr t"
  by (simp add: tree_check_focus_def)

lemma store_check_focus [simp]: "store (tree_check_focus g t) = store t"
  by (simp add: tree_check_focus_def)

lemma buffer_check_focus [simp]: "search_buffer (tree_check_focus g t) = search_buffer t"
  by (simp add: tree_check_focus_def)

text \<open>
  C7. With at least 8 visible rows, focus correction applied twice gives the state it
  gives applied once, and the offset it leaves lies between 3 and the number of visible
  rows minus 4.
\<close>

theorem tree_check_focus_idempotent:
  assumes "8 \<le> tlines g t"
  shows "tree_check_focus g (tree_check_focus g t) = tree_check_focus g t
       \<and> 3 \<le> topdiff (tree_check_focus g t)
       \<and> topdiff (tree_check_focus g t) \<le> tlines g t - 4"
proof -
  have "tlines g (t\<lparr>topdiff := 3\<rparr>) = tlines g t"
    and "tlines g (t\<lparr>topdiff := tlines g t - 3 - 1\<rparr>) = tlines g t"
    by (simp_all add: tlines_def)
  with assms show ?thesis
    by (simp add: tree_check_focus_def)
qed

theorem tree_check_focus_idempotent_witness:
  "8 \<le> tlines flat_mode (view4 None 25)
   \<and> tree_check_focus flat_mode (tree_check_focus flat_mode (view4 None 25))
       = tree_check_focus flat_mode (view4 None 25)
   \<and> topdiff (tree_check_focus flat_mode (view4 None 25)) = 16"
  using tree_check_focus_idempotent [of flat_mode "view4 None 25"]
  by (simp add: tlines_def view4_def flat_mode_def tree_check_focus_def)

subsection \<open>Reading the sequence through the links\<close>

lemma chain_nth:
  "chain h p es \<Longrightarrow> i < length es \<Longrightarrow>
     h (fst (es ! i)) = Some (snd (es ! i)) \<and>
     next (snd (es ! i)) = next_of es i \<and>
     prev (snd (es ! i)) = (if i = 0 then p else Some (fst (es ! (i - 1))))"
proof (induction es arbitrary: p i)
  case Nil
  then show ?case by simp
next
  case (Cons x es)
  obtain a e where x: "x = (a, e)" by (cases x)
  show ?case
  proof (cases i)
    case 0
    with Cons.prems x show ?thesis
      by (auto simp: next_of_def split: list.splits)
  next
    case (Suc k)
    with Cons.prems x have "chain h (Some a) es" "k < length es" by auto
    from Cons.IH[OF this] Suc x show ?thesis
      by (auto simp: next_of_def)
  qed
qed

lemma store_nth:
  assumes "store_list st es" "i < length es"
  shows "mem st (fst (es ! i)) = Some (snd (es ! i))"
    and "next (snd (es ! i)) = next_of es i"
    and "prev (snd (es ! i)) = prev_of es i"
  using chain_nth[of "mem st" None es i] assms
  by (auto simp: store_list_def prev_of_def)

lemma store_deref:
  "store_list st es \<Longrightarrow> i < length es \<Longrightarrow>
     deref (mem st) (Some (fst (es ! i))) = Some (snd (es ! i))"
  by (simp add: deref_def store_nth)

lemma store_inj:
  "store_list st es \<Longrightarrow> i < length es \<Longrightarrow> j < length es \<Longrightarrow>
     fst (es ! i) = fst (es ! j) \<longleftrightarrow> i = j"
  unfolding store_list_def
  by (metis distinct_conv_nth length_map nth_map)

lemma store_first: "store_list st es \<Longrightarrow> es \<noteq> [] \<Longrightarrow> tree_first st = Some (fst (es ! 0))"
  by (cases es) (auto simp: store_list_def)

lemma store_last:
  "store_list st es \<Longrightarrow> es \<noteq> [] \<Longrightarrow> tree_last st = Some (fst (es ! (length es - 1)))"
  by (simp add: store_list_def last_conv_nth)

lemma store_list_dirs4: "store_list store4 dirs4"
  by (simp add: store_list_def store4_def dirs4_def dir_root_def dir_a_def dir_ax_def dir_b_def)

subsection \<open>The removal hook\<close>

text \<open>
  C6. When the hook runs for the \<open>i\<close>-th entry of the store and that entry is the
  selection, the selection becomes the entry's next one, or its previous one when there
  is no next one; it becomes \<^verbatim>\<open>NULL\<close> only when removing the entry leaves the store empty.
  When the entry is not the selection, the view is unchanged.
\<close>

theorem remove_callback_reseats:
  assumes "store_list (store t) es" and "i < length es"
  shows "remove_callback (Some (fst (es ! i))) t =
           Some (if selected_ptr t = Some (fst (es ! i))
                 then t\<lparr>selected_ptr :=
                          (if next_of es i \<noteq> None then next_of es i else prev_of es i)\<rparr>
                 else t)
       \<and> ((if next_of es i \<noteq> None then next_of es i else prev_of es i) = None
            \<longleftrightarrow> remove1 (es ! i) es = [])"
proof -
  have "(if next_of es i \<noteq> None then next_of es i else prev_of es i) = None \<longleftrightarrow> length es = 1"
    using assms(2) by (auto simp: next_of_def prev_of_def)
  moreover have "length es = 1 \<longleftrightarrow> remove1 (es ! i) es = []"
    using assms(2) by (cases es) (auto simp: nth_Cons' split: if_splits)
  ultimately show ?thesis
    using assms by (simp add: remove_callback_def store_deref store_nth)
qed

lemma store_view4 [simp]: "store (view4 sel td) = store4"
  by (simp add: view4_def)

theorem remove_callback_reseats_witness:
  "store_list (store (view4 (Some 40) 5)) dirs4 \<and> 3 < length dirs4
   \<and> remove_callback (Some 40) (view4 (Some 40) 5) = Some (view4 (Some 30) 5)"
proof -
  have s: "store_list (store (view4 (Some 40) 5)) dirs4"
    using store_list_dirs4 by simp
  have l: "3 < length dirs4"
    by (simp add: dirs4_def)
  from remove_callback_reseats [OF s l] s l show ?thesis
    by (simp add: dirs4_def next_of_def prev_of_def view4_def)
qed

subsection \<open>Incremental search\<close>

lemma strncmp_eq_prefix: "strncmp_eq s text (length text) \<longleftrightarrow> prefix text s"
  by (auto simp: strncmp_eq_def prefix_def) (metis append_take_drop_id)

lemma scan_result_Cons:
  "scan_result text (ae # seg) sel td =
     (if matches text ae then (Some (fst ae), True, td) else scan_result text seg sel (td + 1))"
  by (simp add: scan_result_def)

lemma scan_result_Nil: "scan_result text [] sel td = (sel, False, td)"
  by (simp add: scan_result_def)

lemma search_loop_wrapped:
  assumes st: "store_list st es" and s: "s < length es"
  shows "c \<le> s \<Longrightarrow>
     search_loop (mem st) first (Some (fst (es ! s))) text (Some (fst (es ! c))) True td =
       Some (scan_result text (take (s - c) (drop c es)) (Some (fst (es ! s))) td)"
proof (induction "s - c" arbitrary: c td)
  case 0
  then have "c = s" by simp
  then show ?case
    by (subst search_loop.simps) (simp add: scan_result_Nil)
next
  case (Suc d)
  then have c: "c < s" "c < length es" "Suc c < length es" using s by auto
  have ne: "fst (es ! c) \<noteq> fst (es ! s)"
    using store_inj[OF st c(2) s] c(1) by simp
  have seg: "take (s - c) (drop c es) = es ! c # take (s - Suc c) (drop (Suc c) es)"
    using c by (metis Cons_nth_drop_Suc Suc_diff_Suc take_Suc_Cons)
  have nx: "next (snd (es ! c)) = Some (fst (es ! Suc c))"
    using store_nth(2)[OF st c(2)] c(3) by (simp add: next_of_def)
  have IH: "search_loop (mem st) first (Some (fst (es ! s))) text (Some (fst (es ! Suc c))) True (td + 1) =
       Some (scan_result text (take (s - Suc c) (drop (Suc c) es)) (Some (fst (es ! s))) (td + 1))"
    using Suc.hyps(1)[of "Suc c" "td + 1"] Suc.hyps(2) c by simp
  show ?case
    apply (subst search_loop.simps)
    apply (simp add: ne store_deref[OF st c(2)] seg scan_result_Cons strncmp_eq_prefix matches_def nx IH)
    done
qed

lemma search_loop_unwrapped:
  assumes st: "store_list st es" and s: "s < length es"
  shows "s \<le> c \<Longrightarrow> c < length es \<Longrightarrow>
     search_loop (mem st) (tree_first st) (Some (fst (es ! s))) text (Some (fst (es ! c))) False td =
       Some (scan_result text (drop c es @ take s es) (Some (fst (es ! s))) td)"
proof (induction "length es - c" arbitrary: c td)
  case 0
  then show ?case by simp
next
  case (Suc d)
  have c: "c < length es" by fact
  have seg: "drop c es = es ! c # drop (Suc c) es"
    using c by (simp add: Cons_nth_drop_Suc)
  have ne: "es \<noteq> []" using c by auto
  show ?case
  proof (cases "Suc c < length es")
    case True
    have nx: "next (snd (es ! c)) = Some (fst (es ! Suc c))"
      using store_nth(2)[OF st c] True by (simp add: next_of_def)
    have IH: "search_loop (mem st) (tree_first st) (Some (fst (es ! s))) text (Some (fst (es ! Suc c))) False (td + 1) =
       Some (scan_result text (drop (Suc c) es @ take s es) (Some (fst (es ! s))) (td + 1))"
      using Suc.hyps(1)[of "Suc c" "td + 1"] Suc.hyps(2) Suc.prems True by simp
    show ?thesis
      apply (subst search_loop.simps)
      apply (simp add: store_deref[OF st c] seg scan_result_Cons strncmp_eq_prefix matches_def nx IH)
      done
  next
    case False
    have nx: "next (snd (es ! c)) = None"
      using store_nth(2)[OF st c] False by (simp add: next_of_def)
    have dr: "drop (Suc c) es = []" using False by simp
    have W: "search_loop (mem st) (Some (fst (es ! 0))) (Some (fst (es ! s))) text (Some (fst (es ! 0))) True (td + 1) =
       Some (scan_result text (take s es) (Some (fst (es ! s))) (td + 1))"
      using search_loop_wrapped[OF st s, of 0 "Some (fst (es ! 0))" "text" "td + 1"] by simp
    show ?thesis
      apply (subst search_loop.simps)
      apply (simp add: store_deref[OF st c] seg dr scan_result_Cons strncmp_eq_prefix matches_def nx
          store_first[OF st ne] W)
      done
  qed
qed


lemma search_tree_scan:
  assumes st: "store_list (store t) es" and s: "s < length es"
    and sel: "selected_ptr t = Some (fst (es ! s))"
  shows "search_tree g t text =
     (case scan_result text (drop s es @ take s es) (selected_ptr t) (topdiff t) of
        (sel', found, td) \<Rightarrow>
          Some (tree_check_focus g (t\<lparr>selected_ptr := sel', topdiff := td\<rparr>), found))"
  using search_loop_unwrapped[OF st s, of s "text" "topdiff t"] s
  by (simp add: search_tree_def sel split: prod.splits)

lemma scan_result_none:
  "\<forall>ae \<in> set seg. \<not> matches text ae \<Longrightarrow>
     scan_result text seg sel td = (sel, False, td + int (length seg))"
  by (induction seg arbitrary: td) (simp_all add: scan_result_Nil scan_result_Cons)

lemma search_tree_no_match:
  assumes "store_list (store t) es" and "s < length es"
    and "selected_ptr t = Some (fst (es ! s))"
    and "\<forall>ae \<in> set es. \<not> matches text ae"
  shows "search_tree g t text =
           Some (tree_check_focus g (t\<lparr>topdiff := topdiff t + int (length es)\<rparr>), False)"
proof -
  have "\<forall>ae \<in> set (drop s es @ take s es). \<not> matches text ae"
    using assms(4) by (auto dest: in_set_dropD in_set_takeD)
  from scan_result_none[OF this, of "selected_ptr t" "topdiff t"] assms(2)
  have "scan_result text (drop s es @ take s es) (selected_ptr t) (topdiff t)
          = (selected_ptr t, False, topdiff t + int (length es))"
    by simp
  with search_tree_scan[OF assms(1-3), of g "text"] show ?thesis
    by simp
qed


lemma store_list_dirs3: "store_list store3 dirs3"
  by (simp add: store_list_def store3_def dirs3_def dir_ab_def dir_ac_def dir_d_def)

lemma store_view3 [simp]: "store (view3 sel buf td) = store3"
  by (simp add: view3_def)

lemma matches_dirs3:
  "matches text (11, dir_ab) \<longleftrightarrow> prefix text ''ab''"
  "matches text (12, dir_ac) \<longleftrightarrow> prefix text ''ac''"
  "matches text (13, dir_d) \<longleftrightarrow> prefix text ''d''"
  by (simp_all add: matches_def dir_ab_def dir_ac_def dir_d_def)

text \<open>
  C4 (as amended). The scan examines the current selection first, then the entries after
  it up to the end of the sequence, then the entries from the start of the sequence up to
  the one before the selection. The first of them whose \<^verbatim>\<open>subname\<close> begins with the text
  becomes the selection, and the offset grows by the number of entries passed over before
  it; the scan ends when it comes back to the selection, which is not examined again.
\<close>

theorem search_tree_first_match:
  assumes "store_list (store t) es" and "s < length es"
    and "selected_ptr t = Some (fst (es ! s))"
  shows "search_tree g t text =
     Some (tree_check_focus g
             (t\<lparr>selected_ptr :=
                  (case find (matches text) (drop s es @ take s es) of
                     Some ae \<Rightarrow> Some (fst ae) | None \<Rightarrow> selected_ptr t),
                topdiff := topdiff t
                  + int (length (takeWhile (\<lambda>ae. \<not> matches text ae) (drop s es @ take s es)))\<rparr>),
           find (matches text) (drop s es @ take s es) \<noteq> None)"
  using search_tree_scan[OF assms, of g "text"]
  by (simp add: scan_result_def)

theorem search_tree_first_match_witness:
  "store_list (store (view3 (Some 13) ''a'' 5)) dirs3 \<and> 2 < length dirs3
   \<and> selected_ptr (view3 (Some 13) ''a'' 5) = Some (fst (dirs3 ! 2))
   \<and> search_tree hier_mode (view3 (Some 13) ''a'' 5) ''a'' = Some (view3 (Some 11) ''a'' 6, True)"
proof -
  have s: "store_list (store (view3 (Some 13) ''a'' 5)) dirs3"
    using store_list_dirs3 by simp
  have l: "2 < length dirs3"
    by (simp add: dirs3_def)
  have p: "selected_ptr (view3 (Some 13) ''a'' 5) = Some (fst (dirs3 ! 2))"
    by (simp add: dirs3_def view3_def)
  from search_tree_first_match [OF s l p, of hier_mode "''a''"] s l p show ?thesis
    apply (simp add: dirs3_def matches_dirs3)
    apply (simp add: view3_def tree_check_focus_def tlines_def hier_mode_def)
    done
qed

text \<open>
  C4 as stated fails: with \<open>/ab\<close> selected and the text \<open>a\<close>, the scan stops at once on the
  selection itself, although the next entry \<open>/ac\<close> matches too.
\<close>

theorem search_tree_selection_first_candidate:
  "search_tree hier_mode (view3 (Some 11) ''a'' 5) ''a'' = Some (view3 (Some 11) ''a'' 5, True)
   \<and> next dir_ab = Some 12 \<and> matches ''a'' (12, dir_ac)"
proof -
  have s: "store_list (store (view3 (Some 11) ''a'' 5)) dirs3"
    using store_list_dirs3 by simp
  have l: "0 < length dirs3"
    by (simp add: dirs3_def)
  have p: "selected_ptr (view3 (Some 11) ''a'' 5) = Some (fst (dirs3 ! 0))"
    by (simp add: dirs3_def view3_def)
  from search_tree_scan [OF s l p, of hier_mode "''a''"] show ?thesis
    apply (simp add: dirs3_def matches_dirs3 scan_result_def)
    apply (simp add: view3_def tree_check_focus_def tlines_def hier_mode_def dir_ab_def)
    done
qed


text \<open>
  C10. A scan that finds no match leaves the selection as it was, but not the offset:
  the loop adds one for each of the \<open>n\<close> entries of the store, and \<^verbatim>\<open>search_tree\<close> returns
  the view with the offset \<^verbatim>\<open>topdiff + n\<close> put through focus correction.
\<close>

theorem search_tree_failed_scan_scrolls:
  assumes "store_list (store t) es" and "s < length es"
    and "selected_ptr t = Some (fst (es ! s))"
    and "\<forall>ae \<in> set es. \<not> matches text ae"
  shows "search_loop (mem (store t)) (tree_first (store t)) (selected_ptr t) text
           (selected_ptr t) False (topdiff t)
           = Some (selected_ptr t, False, topdiff t + int (length es))
       \<and> search_tree g t text =
           Some (tree_check_focus g (t\<lparr>topdiff := topdiff t + int (length es)\<rparr>), False)
       \<and> selected_ptr (tree_check_focus g (t\<lparr>topdiff := topdiff t + int (length es)\<rparr>))
           = selected_ptr t"
proof -
  have "\<forall>ae \<in> set (drop s es @ take s es). \<not> matches text ae"
    using assms(4) by (auto dest: in_set_dropD in_set_takeD)
  from scan_result_none[OF this, of "selected_ptr t" "topdiff t"] assms(2)
  have "scan_result text (drop s es @ take s es) (selected_ptr t) (topdiff t)
          = (selected_ptr t, False, topdiff t + int (length es))"
    by simp
  with search_loop_unwrapped[OF assms(1,2), of s "text" "topdiff t"] assms(2,3)
  have "search_loop (mem (store t)) (tree_first (store t)) (selected_ptr t) text
           (selected_ptr t) False (topdiff t)
           = Some (selected_ptr t, False, topdiff t + int (length es))"
    by simp
  with search_tree_no_match[OF assms, of g] show ?thesis
    by simp
qed

theorem search_tree_failed_scan_scrolls_witness:
  "store_list (store (view3 (Some 12) ''q'' 15)) dirs3 \<and> 1 < length dirs3
   \<and> selected_ptr (view3 (Some 12) ''q'' 15) = Some (fst (dirs3 ! 1))
   \<and> \<not> matches ''q'' (11, dir_ab) \<and> \<not> matches ''q'' (12, dir_ac)
   \<and> \<not> matches ''q'' (13, dir_d)
   \<and> search_tree hier_mode (view3 (Some 12) ''q'' 15) ''q''
        = Some (view3 (Some 12) ''q'' 16, False)"
proof -
  have s: "store_list (store (view3 (Some 12) ''q'' 15)) dirs3"
    using store_list_dirs3 by simp
  have l: "1 < length dirs3"
    by (simp add: dirs3_def)
  have p: "selected_ptr (view3 (Some 12) ''q'' 15) = Some (fst (dirs3 ! 1))"
    by (simp add: dirs3_def view3_def)
  have n: "\<forall>ae \<in> set dirs3. \<not> matches ''q'' ae"
    by (simp add: dirs3_def matches_dirs3)
  have m: "\<not> matches ''q'' (11, dir_ab) \<and> \<not> matches ''q'' (12, dir_ac)
      \<and> \<not> matches ''q'' (13, dir_d)"
    by (simp add: matches_dirs3)
  from search_tree_failed_scan_scrolls [OF s l p n, of hier_mode] s l p m show ?thesis
    by (simp add: dirs3_def view3_def tree_check_focus_def tlines_def hier_mode_def)
qed

subsection \<open>The store of four directories\<close>


lemma mem_store4:
  "mem store4 10 = Some dir_root" "mem store4 20 = Some dir_a"
  "mem store4 30 = Some dir_ax" "mem store4 40 = Some dir_b"
  by (simp_all add: store4_def dirs4_def)

lemma deref_store4:
  "deref (mem store4) (Some 10) = Some dir_root" "deref (mem store4) (Some 20) = Some dir_a"
  "deref (mem store4) (Some 30) = Some dir_ax" "deref (mem store4) (Some 40) = Some dir_b"
  by (simp_all add: deref_def mem_store4)

lemma fields_dirs4:
  "prev dir_root = None" "next dir_root = Some 20" "sublevel dir_root = 0"
  "prev dir_a = Some 10" "next dir_a = Some 30" "sublevel dir_a = 1"
  "prev dir_ax = Some 20" "next dir_ax = Some 40" "sublevel dir_ax = 2"
  "prev dir_b = Some 30" "next dir_b = None" "sublevel dir_b = 1"
  by (simp_all add: dir_root_def dir_a_def dir_ax_def dir_b_def)

lemma check_focus_view4:
  "3 \<le> td \<Longrightarrow> td \<le> 16 \<Longrightarrow> tree_check_focus g (view4 sel td) = view4 sel td"
  by (simp add: tree_check_focus_def view4_def tlines_def)

lemma view4_upd:
  "(view4 sel td)\<lparr>selected_ptr := sel', topdiff := td'\<rparr> = view4 sel' td'"
  by (simp add: view4_def)

text \<open>
  C8. In the store \<open>/\<close>, \<open>/a\<close>, \<open>/a/x\<close>, \<open>/b\<close> with \<open>/a/x\<close> selected, the move to the parent
  selects \<open>/a\<close>. From there one step forward selects \<open>/b\<close> in the hierarchical mode and
  \<open>/a/x\<close> in the flat mode.
\<close>

theorem scenario_parent_then_forward:
  "tree_move_to_parent hier_mode (view4 (Some 30) 5) = Some (view4 (Some 20) 5, True)
   \<and> tree_move_forward hier_mode (view4 (Some 20) 5) 1 = Some (view4 (Some 40) 6)
   \<and> tree_move_forward flat_mode (view4 (Some 20) 5) 1 = Some (view4 (Some 30) 6)"
proof -
  have "move_to_parent_loop (mem store4) (Some 30) (Some 20) 5 = Some (Some 20, 5)"
    by (subst move_to_parent_loop.simps) (simp add: mem_store4 deref_store4 fields_dirs4)
  then have 1: "tree_move_to_parent hier_mode (view4 (Some 30) 5) = Some (view4 (Some 20) 5, True)"
    by (simp add: tree_move_to_parent_def view4_def deref_store4 fields_dirs4
        tree_check_focus_def tlines_def)
  have "move_forward_loop (mem store4) 1 (Some 20) (Some 20) 0 = Some (Some 40, 1)"
    by (simp add: move_forward_loop.simps deref_store4 fields_dirs4)
  then have 2: "tree_move_forward hier_mode (view4 (Some 20) 5) 1 = Some (view4 (Some 40) 6)"
    by (simp add: tree_move_forward_def hier_mode_def view4_def tree_check_focus_def tlines_def)
  have "forw_ptr (mem store4) (Some 20) 1 = Some (Some 30, 1)"
    by (simp add: forw_ptr_def mem_store4 fields_dirs4)
  then have 3: "tree_move_forward flat_mode (view4 (Some 20) 5) 1 = Some (view4 (Some 30) 6)"
    by (simp add: tree_move_forward_def flat_mode_def view4_def tree_check_focus_def tlines_def)
  from 1 2 3 show ?thesis by simp
qed

subsection \<open>The move to the parent\<close>

lemma parent_loop_found:
  assumes st: "store_list st es" and s: "s < length es"
    and p: "level es p < level es s"
  shows "p \<le> c \<Longrightarrow> c < length es \<Longrightarrow> (\<forall>k. p < k \<and> k \<le> c \<longrightarrow> level es s \<le> level es k) \<Longrightarrow>
     move_to_parent_loop (mem st) (Some (fst (es ! s))) (Some (fst (es ! c))) td =
       Some (Some (fst (es ! p)), td - int (c - p))"
proof (induction "c - p" arbitrary: c td)
  case 0
  then have "c = p" by simp
  with p 0 show ?case
    by (subst move_to_parent_loop.simps)
       (simp add: store_nth(1)[OF st] store_deref[OF st s] level_def)
next
  case (Suc d)
  then have c: "p < c" "c < length es" "c - 1 < length es" by auto
  have lv: "level es s \<le> level es c" using Suc.prems c by simp
  have pv: "prev (snd (es ! c)) = Some (fst (es ! (c - 1)))"
    using store_nth(3)[OF st c(2)] c(1) by (simp add: prev_of_def)
  have IH: "move_to_parent_loop (mem st) (Some (fst (es ! s))) (Some (fst (es ! (c - 1)))) (td - 1) =
       Some (Some (fst (es ! p)), td - 1 - int (c - 1 - p))"
  proof -
    have 1: "d = c - 1 - p" using Suc.hyps(2) by simp
    have 2: "p \<le> c - 1" using c by simp
    have 3: "\<forall>k. p < k \<and> k \<le> c - 1 \<longrightarrow> level es s \<le> level es k"
      using Suc.prems(3) by auto
    show ?thesis by (rule Suc.hyps(1)[OF 1 2 c(3) 3])
  qed
  have "td - 1 - int (c - 1 - p) = td - int (c - p)" using c by simp
  with IH lv pv show ?case
    by (subst move_to_parent_loop.simps)
       (simp add: store_nth(1)[OF st c(2)] store_deref[OF st s] level_def)
qed

lemma parent_loop_none:
  assumes st: "store_list st es" and s: "s < length es"
  shows "c < length es \<Longrightarrow> (\<forall>k \<le> c. level es s \<le> level es k) \<Longrightarrow>
     move_to_parent_loop (mem st) (Some (fst (es ! s))) (Some (fst (es ! c))) td =
       Some (None, td - int (Suc c))"
proof (induction c arbitrary: td)
  case 0
  then have lv: "level es s \<le> level es 0" by simp
  have pv: "prev (snd (es ! 0)) = None"
    using store_nth(3)[OF st 0(1)] by (simp add: prev_of_def)
  have N: "move_to_parent_loop (mem st) (Some (fst (es ! s))) None (td - 1) = Some (None, td - 1)"
    by (subst move_to_parent_loop.simps) simp
  from lv pv N show ?case
    by (subst move_to_parent_loop.simps)
       (simp add: store_nth(1)[OF st 0(1)] store_deref[OF st s] level_def)
next
  case (Suc c)
  then have c: "c < length es" by simp
  have lv: "level es s \<le> level es (Suc c)" using Suc.prems by simp
  have pv: "prev (snd (es ! Suc c)) = Some (fst (es ! c))"
    using store_nth(3)[OF st Suc.prems(1)] by (simp add: prev_of_def)
  have IH: "move_to_parent_loop (mem st) (Some (fst (es ! s))) (Some (fst (es ! c))) (td - 1) =
       Some (None, td - 1 - int (Suc c))"
    using Suc.IH[OF c, of "td - 1"] Suc.prems(2) by simp
  from lv pv IH show ?case
    by (subst move_to_parent_loop.simps)
       (simp add: store_nth(1)[OF st Suc.prems(1)] store_deref[OF st s] level_def)
qed

text \<open>
  C9 (as amended). Let the selection be the \<open>s\<close>-th entry. If \<open>p\<close> is the nearest earlier
  entry of lesser level, the move selects it, takes \<open>s - p - 1\<close> off the offset (one for
  each entry passed over between the two, none for the step that reaches \<open>p\<close>) and
  returns TRUE. If no earlier entry has a lesser level, it selects the first entry of the
  sequence, takes \<open>s\<close> off the offset, and returns TRUE unless the selection was the
  first entry already. Focus correction follows in both cases. Whatever the call
  returns, its truth value says whether the selection changed.
\<close>

theorem tree_move_to_parent_spec:
  assumes st: "store_list (store t) es" and s: "s < length es"
    and sel: "selected_ptr t = Some (fst (es ! s))"
  shows "(\<forall>p. p < s \<and> level es p < level es s
              \<and> (\<forall>k. p < k \<and> k < s \<longrightarrow> level es s \<le> level es k) \<longrightarrow>
            tree_move_to_parent g t =
              Some (tree_check_focus g
                      (t\<lparr>selected_ptr := Some (fst (es ! p)),
                         topdiff := topdiff t - int (s - p - 1)\<rparr>), True))
       \<and> ((\<forall>k < s. level es s \<le> level es k) \<longrightarrow>
            tree_move_to_parent g t =
              Some (tree_check_focus g
                      (t\<lparr>selected_ptr := tree_first (store t), topdiff := topdiff t - int s\<rparr>),
                    s \<noteq> 0)
            \<and> tree_first (store t) = Some (fst (es ! 0)))
       \<and> (\<forall>t' b. tree_move_to_parent g t = Some (t', b) \<longrightarrow>
            (b \<longleftrightarrow> selected_ptr t' \<noteq> selected_ptr t))"
proof (intro conjI allI impI)
  fix p
  assume a: "p < s \<and> level es p < level es s
              \<and> (\<forall>k. p < k \<and> k < s \<longrightarrow> level es s \<le> level es k)"
  then have ps: "p < s" and lv: "level es p < level es s" by auto
  have pv: "prev (snd (es ! s)) = Some (fst (es ! (s - 1)))"
    using store_nth(3)[OF st s] ps by (simp add: prev_of_def)
  have "move_to_parent_loop (mem (store t)) (Some (fst (es ! s))) (Some (fst (es ! (s - 1)))) (topdiff t)
          = Some (Some (fst (es ! p)), topdiff t - int (s - 1 - p))"
  proof -
    have 1: "p \<le> s - 1" using ps by simp
    have 2: "s - 1 < length es" using s by simp
    have 3: "\<forall>k. p < k \<and> k \<le> s - 1 \<longrightarrow> level es s \<le> level es k"
      using a ps by auto
    show ?thesis by (rule parent_loop_found[OF st s lv 1 2 3])
  qed
  moreover have "fst (es ! p) \<noteq> fst (es ! s)"
    using store_inj[OF st _ s, of p] ps s by simp
  moreover have "s - 1 - p = s - p - 1" by simp
  ultimately show "tree_move_to_parent g t =
              Some (tree_check_focus g
                      (t\<lparr>selected_ptr := Some (fst (es ! p)),
                         topdiff := topdiff t - int (s - p - 1)\<rparr>), True)"
    by (simp add: tree_move_to_parent_def sel store_deref[OF st s] pv)
next
  assume a: "\<forall>k < s. level es s \<le> level es k"
  have ne: "es \<noteq> []" using s by auto
  have f: "tree_first (store t) = Some (fst (es ! 0))"
    by (rule store_first[OF st ne])
  have "move_to_parent_loop (mem (store t)) (Some (fst (es ! s))) (prev (snd (es ! s))) (topdiff t)
          = Some (None, topdiff t - int s)"
  proof (cases s)
    case 0
    then have "prev (snd (es ! s)) = None"
      using store_nth(3)[OF st s] by (simp add: prev_of_def)
    with 0 show ?thesis
      by (subst move_to_parent_loop.simps) simp
  next
    case (Suc c)
    then have "prev (snd (es ! s)) = Some (fst (es ! c))"
      using store_nth(3)[OF st s] by (simp add: prev_of_def)
    with parent_loop_none[OF st s, of c "topdiff t"] a s Suc show ?thesis
      by simp
  qed
  moreover have "fst (es ! 0) = fst (es ! s) \<longleftrightarrow> s = 0"
    using store_inj[OF st _ s, of 0] ne by auto
  ultimately show "tree_move_to_parent g t =
              Some (tree_check_focus g
                      (t\<lparr>selected_ptr := tree_first (store t), topdiff := topdiff t - int s\<rparr>),
                    s \<noteq> 0)"
    by (auto simp add: tree_move_to_parent_def sel store_deref[OF st s] f)
  show "tree_first (store t) = Some (fst (es ! 0))" by (rule f)
next
  fix t' b
  assume "tree_move_to_parent g t = Some (t', b)"
  then show "b \<longleftrightarrow> selected_ptr t' \<noteq> selected_ptr t"
    by (auto simp: tree_move_to_parent_def Let_def split: if_splits Option.bind_splits prod.splits)
qed

lemma level_dirs4:
  "level dirs4 0 = 0" "level dirs4 (Suc 0) = 1" "level dirs4 2 = 2" "level dirs4 3 = 1"
  by (simp_all add: level_def dirs4_def fields_dirs4)

theorem tree_move_to_parent_spec_witness:
  "store_list (store (view4 (Some 40) 10)) dirs4 \<and> 3 < length dirs4
   \<and> selected_ptr (view4 (Some 40) 10) = Some (fst (dirs4 ! 3))
   \<and> level dirs4 0 < level dirs4 3
   \<and> level dirs4 3 \<le> level dirs4 1 \<and> level dirs4 3 \<le> level dirs4 2
   \<and> tree_move_to_parent hier_mode (view4 (Some 40) 10) = Some (view4 (Some 10) 8, True)"
proof -
  have s: "store_list (store (view4 (Some 40) 10)) dirs4"
    using store_list_dirs4 by simp
  have l: "3 < length dirs4"
    by (simp add: dirs4_def)
  have p: "selected_ptr (view4 (Some 40) 10) = Some (fst (dirs4 ! 3))"
    by (simp add: dirs4_def view4_def)
  have lv: "level dirs4 0 < level dirs4 3"
    by (simp add: level_dirs4)
  have btw: "\<forall>k. 0 < k \<and> k < 3 \<longrightarrow> level dirs4 3 \<le> level dirs4 k"
  proof (intro allI impI)
    fix k :: nat
    assume "0 < k \<and> k < 3"
    then have "k = 1 \<or> k = 2" by arith
    then show "level dirs4 3 \<le> level dirs4 k"
      by (auto simp: level_dirs4)
  qed
  have "tree_move_to_parent hier_mode (view4 (Some 40) 10) =
          Some (tree_check_focus hier_mode
                  ((view4 (Some 40) 10)\<lparr>selected_ptr := Some (fst (dirs4 ! 0)),
                     topdiff := topdiff (view4 (Some 40) 10) - int (3 - 0 - 1)\<rparr>), True)"
    by (rule tree_move_to_parent_spec [OF s l p, of hier_mode, THEN conjunct1, rule_format, of 0])
       (use lv btw in simp)
  then have "tree_move_to_parent hier_mode (view4 (Some 40) 10) = Some (view4 (Some 10) 8, True)"
    by (simp add: dirs4_def view4_def tree_check_focus_def tlines_def)
  moreover have "level dirs4 3 \<le> level dirs4 1 \<and> level dirs4 3 \<le> level dirs4 2"
    by (simp add: level_dirs4)
  ultimately show ?thesis using s l p lv by simp
qed

text \<open>
  C9 as stated fails: from \<open>/a/x\<close> one step along \<^verbatim>\<open>prev\<close> reaches the parent \<open>/a\<close>, and
  the offset stays 10, although focus correction would have left a 9 alone.
\<close>

theorem tree_move_to_parent_first_step_free:
  "tree_move_to_parent hier_mode (view4 (Some 30) 10) = Some (view4 (Some 20) 10, True)
   \<and> prev dir_ax = Some 20
   \<and> tree_check_focus hier_mode (view4 (Some 20) 9) = view4 (Some 20) 9"
proof -
  have "move_to_parent_loop (mem store4) (Some 30) (Some 20) 10 = Some (Some 20, 10)"
    by (subst move_to_parent_loop.simps) (simp add: mem_store4 deref_store4 fields_dirs4)
  then have "tree_move_to_parent hier_mode (view4 (Some 30) 10) = Some (view4 (Some 20) 10, True)"
    by (simp add: tree_move_to_parent_def view4_def deref_store4 fields_dirs4
        tree_check_focus_def tlines_def)
  then show ?thesis
    by (simp add: fields_dirs4 check_focus_view4)
qed

subsection \<open>The move to a child\<close>

lemma rises_by_one_nth:
  "rises_by_one es \<Longrightarrow> Suc k < length es \<Longrightarrow> level es (Suc k) \<le> level es k + 1"
proof (induction es arbitrary: k rule: rises_by_one.induct)
  case (1 x y es)
  then show ?case
    by (cases k) (simp_all add: level_def)
qed simp_all

lemma child_test_store:
  assumes st: "store_list (store t) es" and s: "s < length es"
    and sel: "selected_ptr t = Some (fst (es ! s))"
  shows "child_test t =
           Some (next_of es s, Suc s < length es \<and> level es s < level es (Suc s))"
proof (cases "Suc s < length es")
  case True
  then have "next_of es s = Some (fst (es ! Suc s))" by (simp add: next_of_def)
  with True show ?thesis
    by (simp add: child_test_def sel store_deref[OF st s] store_nth(2)[OF st s]
        store_deref[OF st True] level_def)
next
  case False
  then have "next_of es s = None" by (simp add: next_of_def)
  with False show ?thesis
    by (simp add: child_test_def sel store_deref[OF st s] store_nth(2)[OF st s])
qed

lemma child_test_is_child:
  assumes "store_list (store t) es" and "s < length es"
    and "selected_ptr t = Some (fst (es ! s))" and r: "rises_by_one es"
  shows "child_test t = Some (next_of es s, is_child es s)"
proof -
  have "Suc s < length es \<and> level es s < level es (Suc s) \<longleftrightarrow> is_child es s"
    using rises_by_one_nth[OF r, of s] by (auto simp: is_child_def)
  with child_test_store[OF assms(1-3)] show ?thesis by simp
qed

lemma mc_tree_cmd_rescan_store:
  assumes st: "store_list (store t) es" and s: "s < length es"
    and sel: "selected_ptr t = Some (fst (es ! s))"
  shows "mc_tree_cmd_rescan x t =
     Some (if vfs_get_raw_current_dir x \<noteq> None \<and> mc_chdir x (name (snd (es ! s))) = 0
           then t\<lparr>store := fst (tree_store_rescan x (name (snd (es ! s))) (store t, selected_ptr t)),
                  selected_ptr := snd (tree_store_rescan x (name (snd (es ! s))) (store t, selected_ptr t))\<rparr>
           else t)"
  by (simp add: mc_tree_cmd_rescan_def sel store_deref[OF st s] split: option.splits prod.splits)









subsection \<open>The selection stays in the store\<close>

lemma forw_loop_valid:
  assumes st: "store_list st es"
  shows "c < length es \<Longrightarrow>
    \<exists>c' i'. c' < length es \<and> forw_loop (mem st) count (Some (fst (es ! c))) i = Some (Some (fst (es ! c')), i')"
proof (induction "length es - c" arbitrary: c i)
  case 0
  then show ?case by simp
next
  case (Suc d)
  show ?case
  proof (cases "Suc c < length es \<and> i < count")
    case True
    then have nx: "next (snd (es ! c)) = Some (fst (es ! Suc c))"
      using store_nth(2)[OF st Suc.prems] by (simp add: next_of_def)
    from True Suc.hyps(2) have "d = length es - Suc c" "Suc c < length es" by auto
    from Suc.hyps(1)[OF this, of "i + 1"] obtain c' i' where
      "c' < length es" "forw_loop (mem st) count (Some (fst (es ! Suc c))) (i + 1) = Some (Some (fst (es ! c')), i')"
      by blast
    with True nx show ?thesis
      by (subst forw_loop.simps) (auto simp del: forw_loop.simps simp add: store_nth(1)[OF st Suc.prems])
  next
    case False
    then have "\<not> (next (snd (es ! c)) \<noteq> None \<and> i < count)"
      using store_nth(2)[OF st Suc.prems] by (auto simp: next_of_def)
    then have "forw_loop (mem st) count (Some (fst (es ! c))) i = Some (Some (fst (es ! c)), i)"
      by (subst forw_loop.simps) (auto simp del: forw_loop.simps simp add: store_nth(1)[OF st Suc.prems])
    with Suc.prems show ?thesis by blast
  qed
qed

lemma back_loop_valid:
  assumes st: "store_list st es"
  shows "c < length es \<Longrightarrow>
    \<exists>c' i'. c' < length es \<and> back_loop (mem st) count (Some (fst (es ! c))) i = Some (Some (fst (es ! c')), i')"
proof (induction c arbitrary: i)
  case 0
  have "prev (snd (es ! 0)) = None"
    using store_nth(3)[OF st 0] by (simp add: prev_of_def)
  then have "back_loop (mem st) count (Some (fst (es ! 0))) i = Some (Some (fst (es ! 0)), i)"
    by (subst back_loop.simps) (simp del: back_loop.simps add: store_nth(1)[OF st 0])
  with 0 show ?case by blast
next
  case (Suc c)
  then have c: "c < length es" by simp
  have pv: "prev (snd (es ! Suc c)) = Some (fst (es ! c))"
    using store_nth(3)[OF st Suc.prems] by (simp add: prev_of_def)
  show ?case
  proof (cases "i < count")
    case True
    from Suc.IH[OF c, of "i + 1"] obtain c' i' where
      "c' < length es" "back_loop (mem st) count (Some (fst (es ! c))) (i + 1) = Some (Some (fst (es ! c')), i')"
      by blast
    with True pv show ?thesis
      by (subst back_loop.simps) (auto simp del: back_loop.simps simp add: store_nth(1)[OF st Suc.prems])
  next
    case False
    then have "back_loop (mem st) count (Some (fst (es ! Suc c))) i = Some (Some (fst (es ! Suc c)), i)"
      by (subst back_loop.simps) (simp del: back_loop.simps add: store_nth(1)[OF st Suc.prems])
    with Suc.prems show ?thesis by blast
  qed
qed

lemma move_forward_loop_valid:
  assumes st: "store_list st es"
  shows "c < length es \<Longrightarrow> s < length es \<Longrightarrow>
    \<exists>s' j'. s' < length es \<and>
      move_forward_loop (mem st) i (Some (fst (es ! c))) (Some (fst (es ! s))) j = Some (Some (fst (es ! s')), j')"
proof (induction "length es - c" arbitrary: c s j)
  case 0
  then show ?case by simp
next
  case (Suc d)
  note c = Suc.prems(1) and s = Suc.prems(2)
  show ?case
  proof (cases "j < i \<and> Suc c < length es \<and> level es s \<le> level es (Suc c)")
    case True
    then have c1: "Suc c < length es" by simp
    have nx: "next (snd (es ! c)) = Some (fst (es ! Suc c))"
      using store_nth(2)[OF st c] c1 by (simp add: next_of_def)
    have d: "d = length es - Suc c" using Suc.hyps(2) by simp
    from Suc.hyps(1)[OF d c1 c1, of "j + 1"] obtain s1 j1 where
      1: "s1 < length es" "move_forward_loop (mem st) i (Some (fst (es ! Suc c))) (Some (fst (es ! Suc c))) (j + 1)
            = Some (Some (fst (es ! s1)), j1)"
      by blast
    from Suc.hyps(1)[OF d c1 s, of j] obtain s2 j2 where
      2: "s2 < length es" "move_forward_loop (mem st) i (Some (fst (es ! Suc c))) (Some (fst (es ! s))) j
            = Some (Some (fst (es ! s2)), j2)"
      by blast
    from True nx 1 2 show ?thesis
      by (subst move_forward_loop.simps)
         (auto simp add: store_deref[OF st c] store_deref[OF st c1] store_deref[OF st s] level_def)
  next
    case False
    have "move_forward_loop (mem st) i (Some (fst (es ! c))) (Some (fst (es ! s))) j
            = Some (Some (fst (es ! s)), j)"
    proof (cases "Suc c < length es")
      case True
      then have nx: "next (snd (es ! c)) = Some (fst (es ! Suc c))"
        using store_nth(2)[OF st c] by (simp add: next_of_def)
      from False True nx show ?thesis
        by (subst move_forward_loop.simps)
           (auto simp add: store_deref[OF st c] store_deref[OF st True] store_deref[OF st s] level_def)
    next
      case F: False
      then have nx: "next (snd (es ! c)) = None"
        using store_nth(2)[OF st c] by (simp add: next_of_def)
      then show ?thesis
        by (subst move_forward_loop.simps) (auto simp add: store_deref[OF st c])
    qed
    with s show ?thesis by blast
  qed
qed

lemma move_backward_loop_valid:
  assumes st: "store_list st es"
  shows "c < length es \<Longrightarrow> s < length es \<Longrightarrow>
    \<exists>s' j'. s' < length es \<and>
      move_backward_loop (mem st) i (Some (fst (es ! c))) (Some (fst (es ! s))) j = Some (Some (fst (es ! s')), j')"
proof (induction c arbitrary: s j)
  case 0
  have "prev (snd (es ! 0)) = None"
    using store_nth(3)[OF st 0(1)] by (simp add: prev_of_def)
  then have "move_backward_loop (mem st) i (Some (fst (es ! 0))) (Some (fst (es ! s))) j
            = Some (Some (fst (es ! s)), j)"
    by (subst move_backward_loop.simps) (auto simp add: store_deref[OF st 0(1)])
  with 0 show ?case by blast
next
  case (Suc c)
  note c1 = Suc.prems(1) and s = Suc.prems(2)
  have c: "c < length es" using c1 by simp
  have pv: "prev (snd (es ! Suc c)) = Some (fst (es ! c))"
    using store_nth(3)[OF st c1] by (simp add: prev_of_def)
  from Suc.IH[OF c c, of "j + 1"] obtain s1 j1 where
    1: "s1 < length es" "move_backward_loop (mem st) i (Some (fst (es ! c))) (Some (fst (es ! c))) (j + 1)
          = Some (Some (fst (es ! s1)), j1)"
    by blast
  from Suc.IH[OF c s, of j] obtain s2 j2 where
    2: "s2 < length es" "move_backward_loop (mem st) i (Some (fst (es ! c))) (Some (fst (es ! s))) j
          = Some (Some (fst (es ! s2)), j2)"
    by blast
  from pv 1 2 s show ?case
    by (subst move_backward_loop.simps)
       (auto simp add: store_deref[OF st c1] store_deref[OF st c] store_deref[OF st s])
qed

lemma move_to_parent_loop_valid:
  assumes st: "store_list st es" and s: "s < length es"
  shows "c < length es \<Longrightarrow>
    \<exists>cur td'. move_to_parent_loop (mem st) (Some (fst (es ! s))) (Some (fst (es ! c))) td = Some (cur, td')
       \<and> (cur = None \<or> (\<exists>c' < length es. cur = Some (fst (es ! c'))))"
proof (induction c arbitrary: td)
  case 0
  have pv: "prev (snd (es ! 0)) = None"
    using store_nth(3)[OF st 0] by (simp add: prev_of_def)
  have N: "move_to_parent_loop (mem st) (Some (fst (es ! s))) None (td - 1) = Some (None, td - 1)"
    by (subst move_to_parent_loop.simps) simp
  from pv N 0 show ?case
    by (subst move_to_parent_loop.simps)
       (auto simp add: store_nth(1)[OF st 0] store_deref[OF st s])
next
  case (Suc c)
  then have c: "c < length es" by simp
  have pv: "prev (snd (es ! Suc c)) = Some (fst (es ! c))"
    using store_nth(3)[OF st Suc.prems] by (simp add: prev_of_def)
  from Suc.IH[OF c, of "td - 1"] obtain cur td' where
    "move_to_parent_loop (mem st) (Some (fst (es ! s))) (Some (fst (es ! c))) (td - 1) = Some (cur, td')"
    "cur = None \<or> (\<exists>c' < length es. cur = Some (fst (es ! c')))"
    by blast
  with pv Suc.prems show ?case
    by (subst move_to_parent_loop.simps)
       (auto simp add: store_nth(1)[OF st Suc.prems] store_deref[OF st s])
qed

lemma valid_selectionI:
  "store_list st es \<Longrightarrow> s < length es \<Longrightarrow> valid_selection st (Some (fst (es ! s)))"
  unfolding valid_selection_def by blast

lemma tree_move_forward_valid:
  assumes "valid_selection (store t) (selected_ptr t)"
  shows "\<exists>t'. tree_move_forward g t i = Some t' \<and> valid_selection (store t') (selected_ptr t')"
proof -
  from assms obtain es s where st: "store_list (store t) es" and s: "s < length es"
    and sel: "selected_ptr t = Some (fst (es ! s))"
    unfolding valid_selection_def by blast
  show ?thesis
  proof (cases "tree_navigation_flag g")
    case False
    from forw_loop_valid[OF st s, of i 0] obtain c' i' where
      "c' < length es" "forw_loop (mem (store t)) i (Some (fst (es ! s))) 0 = Some (Some (fst (es ! c')), i')"
      by blast
    with False show ?thesis
      by (simp add: tree_move_forward_def forw_ptr_def sel valid_selectionI[OF st])
  next
    case True
    from move_forward_loop_valid[OF st s s, of i 0] obtain s' j' where
      "s' < length es"
      "move_forward_loop (mem (store t)) i (Some (fst (es ! s))) (Some (fst (es ! s))) 0
         = Some (Some (fst (es ! s')), j')"
      by blast
    with True show ?thesis
      by (simp add: tree_move_forward_def sel valid_selectionI[OF st])
  qed
qed

lemma tree_move_backward_valid:
  assumes "valid_selection (store t) (selected_ptr t)"
  shows "\<exists>t'. tree_move_backward g t i = Some t' \<and> valid_selection (store t') (selected_ptr t')"
proof -
  from assms obtain es s where st: "store_list (store t) es" and s: "s < length es"
    and sel: "selected_ptr t = Some (fst (es ! s))"
    unfolding valid_selection_def by blast
  show ?thesis
  proof (cases "tree_navigation_flag g")
    case False
    from back_loop_valid[OF st s, of i 0] obtain c' i' where
      "c' < length es" "back_loop (mem (store t)) i (Some (fst (es ! s))) 0 = Some (Some (fst (es ! c')), i')"
      by blast
    with False show ?thesis
      by (simp add: tree_move_backward_def back_ptr_def sel valid_selectionI[OF st])
  next
    case True
    from move_backward_loop_valid[OF st s s, of i 0] obtain s' j' where
      "s' < length es"
      "move_backward_loop (mem (store t)) i (Some (fst (es ! s))) (Some (fst (es ! s))) 0
         = Some (Some (fst (es ! s')), j')"
      by blast
    with True show ?thesis
      by (simp add: tree_move_backward_def sel valid_selectionI[OF st])
  qed
qed

lemma tree_move_to_parent_valid:
  assumes "valid_selection (store t) (selected_ptr t)"
  shows "\<exists>t' b. tree_move_to_parent g t = Some (t', b) \<and> valid_selection (store t') (selected_ptr t')"
proof -
  from assms obtain es s where st: "store_list (store t) es" and s: "s < length es"
    and sel: "selected_ptr t = Some (fst (es ! s))"
    unfolding valid_selection_def by blast
  have ne: "es \<noteq> []" using s by auto
  have f: "tree_first (store t) = Some (fst (es ! 0))"
    by (rule store_first[OF st ne])
  have z: "0 < length es" using ne by simp
  have "\<exists>cur td'. move_to_parent_loop (mem (store t)) (Some (fst (es ! s))) (prev (snd (es ! s))) (topdiff t)
            = Some (cur, td')
          \<and> (cur = None \<or> (\<exists>c' < length es. cur = Some (fst (es ! c'))))"
  proof (cases s)
    case 0
    then have "prev (snd (es ! s)) = None"
      using store_nth(3)[OF st s] by (simp add: prev_of_def)
    then show ?thesis
      by (subst move_to_parent_loop.simps) simp
  next
    case (Suc c)
    then have "prev (snd (es ! s)) = Some (fst (es ! c))" and "c < length es"
      using store_nth(3)[OF st s] s by (simp_all add: prev_of_def)
    with move_to_parent_loop_valid[OF st s, of c "topdiff t"] show ?thesis
      by simp
  qed
  then obtain cur td' where
    l: "move_to_parent_loop (mem (store t)) (Some (fst (es ! s))) (prev (snd (es ! s))) (topdiff t)
            = Some (cur, td')"
    and c: "cur = None \<or> (\<exists>c' < length es. cur = Some (fst (es ! c')))"
    by blast
  from c show ?thesis
  proof
    assume "cur = None"
    with l show ?thesis
      by (simp add: tree_move_to_parent_def sel store_deref[OF st s] f valid_selectionI[OF st z])
  next
    assume "\<exists>c' < length es. cur = Some (fst (es ! c'))"
    then obtain c' where "c' < length es" "cur = Some (fst (es ! c'))" by blast
    with l show ?thesis
      by (simp add: tree_move_to_parent_def sel store_deref[OF st s] valid_selectionI[OF st])
  qed
qed

lemma mc_tree_cmd_rescan_valid:
  assumes v: "valid_selection (store t) (selected_ptr t)" and r: "rescan_keeps_valid x"
  shows "\<exists>t1. mc_tree_cmd_rescan x t = Some t1 \<and> valid_selection (store t1) (selected_ptr t1)
           \<and> selected_ptr t1 \<noteq> None"
proof -
  from v obtain es s where st: "store_list (store t) es" and s: "s < length es"
    and sel: "selected_ptr t = Some (fst (es ! s))"
    unfolding valid_selection_def by blast
  let ?r = "tree_store_rescan x (name (snd (es ! s))) (store t, selected_ptr t)"
  have "valid_selection (fst ?r) (snd ?r)"
    using r v unfolding rescan_keeps_valid_def by blast
  moreover have "\<And>st sel. valid_selection st sel \<Longrightarrow> sel \<noteq> None"
    unfolding valid_selection_def by auto
  ultimately show ?thesis
    using v mc_tree_cmd_rescan_store[OF st s sel, of x] by auto
qed

lemma tree_move_to_child_valid:
  assumes v: "valid_selection (store t) (selected_ptr t)" and r: "rescan_keeps_valid x"
  shows "\<exists>t' ev. tree_move_to_child x g t = Some (t', ev) \<and> valid_selection (store t') (selected_ptr t')"
proof -
  from v obtain es s where st: "store_list (store t) es" and s: "s < length es"
    and sel: "selected_ptr t = Some (fst (es ! s))"
    unfolding valid_selection_def by blast
  have ct: "child_test t = Some (next_of es s, Suc s < length es \<and> level es s < level es (Suc s))"
    by (rule child_test_store[OF st s sel])
  show ?thesis
  proof (cases "Suc s < length es \<and> level es s < level es (Suc s)")
    case True
    then show ?thesis
      by (simp add: tree_move_to_child_def sel ct next_of_def valid_selectionI[OF st])
  next
    case False
    from mc_tree_cmd_rescan_valid[OF v r] obtain t1 where
      t1: "mc_tree_cmd_rescan x t = Some t1" and v1: "valid_selection (store t1) (selected_ptr t1)"
      by blast
    from v1 obtain es1 s1 where st1: "store_list (store t1) es1" and s1: "s1 < length es1"
      and sel1: "selected_ptr t1 = Some (fst (es1 ! s1))"
      unfolding valid_selection_def by blast
    have ct1: "child_test t1 =
        Some (next_of es1 s1, Suc s1 < length es1 \<and> level es1 s1 < level es1 (Suc s1))"
      by (rule child_test_store[OF st1 s1 sel1])
    show ?thesis
    proof (cases "Suc s1 < length es1 \<and> level es1 s1 < level es1 (Suc s1)")
      case True
      with False show ?thesis
        by (auto simp add: tree_move_to_child_def sel ct t1 ct1 next_of_def valid_selectionI[OF st1])
    next
      case F1: False
      with False v1 show ?thesis
        by (auto simp add: tree_move_to_child_def sel ct t1 ct1)
    qed
  qed
qed

lemma tree_move_to_top_valid:
  assumes "valid_selection (store t) (selected_ptr t)"
  shows "valid_selection (store (tree_move_to_top t)) (selected_ptr (tree_move_to_top t))"
proof -
  from assms obtain es s where st: "store_list (store t) es" and s: "s < length es"
    unfolding valid_selection_def by blast
  then have "es \<noteq> []" "0 < length es" by auto
  with st show ?thesis
    by (simp add: tree_move_to_top_def store_first[OF st] valid_selectionI[OF st])
qed

lemma tree_move_to_bottom_valid:
  assumes "valid_selection (store t) (selected_ptr t)"
  shows "valid_selection (store (tree_move_to_bottom g t)) (selected_ptr (tree_move_to_bottom g t))"
proof -
  from assms obtain es s where st: "store_list (store t) es" and s: "s < length es"
    unfolding valid_selection_def by blast
  then have "es \<noteq> []" "length es - 1 < length es" by auto
  with st show ?thesis
    by (simp add: tree_move_to_bottom_def store_last[OF st] valid_selectionI[OF st])
qed

lemma exec_command_valid:
  assumes "valid_selection (store t) (selected_ptr t)" and "rescan_keeps_valid x"
  shows "\<exists>t'. exec_command x g c t = Some t' \<and> valid_selection (store t') (selected_ptr t')"
proof (cases c)
  case (Move_forward i)
  with tree_move_forward_valid[OF assms(1), of g i] show ?thesis by simp
next
  case (Move_backward i)
  with tree_move_backward_valid[OF assms(1), of g i] show ?thesis by simp
next
  case Move_to_parent
  with tree_move_to_parent_valid[OF assms(1), of g] show ?thesis by auto
next
  case Move_to_child
  with tree_move_to_child_valid[OF assms, of g] show ?thesis by auto
next
  case Move_to_top
  with tree_move_to_top_valid[OF assms(1)] show ?thesis by simp
next
  case Move_to_bottom
  with tree_move_to_bottom_valid[OF assms(1), of g] show ?thesis by simp
qed

text \<open>
  C1. Start from a view whose selection is an entry of its (hence non-empty) store, and
  let every rescan of the store keep the selection valid. Then every run of calls of
  \<^verbatim>\<open>tree_move_forward\<close>, \<^verbatim>\<open>tree_move_backward\<close>, \<^verbatim>\<open>tree_move_to_parent\<close>,
  \<^verbatim>\<open>tree_move_to_child\<close>, \<^verbatim>\<open>tree_move_to_top\<close> and \<^verbatim>\<open>tree_move_to_bottom\<close>, in either
  navigation mode, returns, and it leaves a selection that is not \<^verbatim>\<open>NULL\<close> and is an
  entry of the store.
\<close>

theorem selection_stays_valid:
  assumes "valid_selection (store t) (selected_ptr t)" and "rescan_keeps_valid x"
  shows "\<exists>t'. exec_commands x cs t = Some t'
           \<and> valid_selection (store t') (selected_ptr t') \<and> selected_ptr t' \<noteq> None"
  using assms(1)
proof (induction cs arbitrary: t)
  case Nil
  then show ?case by (auto simp: valid_selection_def)
next
  case (Cons gc cs)
  obtain g c where gc: "gc = (g, c)" by (cases gc)
  from exec_command_valid[OF Cons.prems assms(2), of g c] obtain t1 where
    "exec_command x g c t = Some t1" "valid_selection (store t1) (selected_ptr t1)"
    by blast
  with Cons.IH[of t1] gc show ?case by simp
qed

lemma parent_view4:
  "tree_move_to_parent g (view4 (Some 30) td)
     = Some (tree_check_focus g (view4 (Some 20) td), True)"
proof -
  have "move_to_parent_loop (mem store4) (Some 30) (Some 20) td = Some (Some 20, td)"
    by (subst move_to_parent_loop.simps) (simp add: mem_store4 deref_store4 fields_dirs4)
  then show ?thesis
    by (simp add: tree_move_to_parent_def view4_def deref_store4 fields_dirs4)
qed

lemma forw_hier_view4:
  "tree_move_forward hier_mode (view4 (Some 20) td) 1
     = Some (tree_check_focus hier_mode (view4 (Some 40) (td + 1)))"
proof -
  have "move_forward_loop (mem store4) 1 (Some 20) (Some 20) 0 = Some (Some 40, 1)"
    by (simp add: move_forward_loop.simps deref_store4 fields_dirs4)
  then show ?thesis
    by (simp add: tree_move_forward_def hier_mode_def view4_def)
qed

lemma child_view4_last:
  "tree_move_to_child extern0 g (view4 (Some 40) td) = Some (view4 (Some 40) td, [''rescan''])"
proof -
  have c: "child_test (view4 (Some 40) td) = Some (None, False)"
    by (simp add: child_test_def view4_def deref_store4 fields_dirs4)
  have r: "mc_tree_cmd_rescan extern0 (view4 (Some 40) td) = Some (view4 (Some 40) td)"
    by (simp add: mc_tree_cmd_rescan_def extern0_def view4_def deref_store4)
  show ?thesis
    by (simp add: tree_move_to_child_def c r) (simp add: view4_def)
qed

lemma rescan_keeps_valid_extern0: "rescan_keeps_valid extern0"
  by (simp add: rescan_keeps_valid_def extern0_def)

theorem selection_stays_valid_witness:
  "valid_selection (store (view4 (Some 30) 5)) (selected_ptr (view4 (Some 30) 5))
   \<and> rescan_keeps_valid extern0
   \<and> exec_commands extern0
        [(hier_mode, Move_to_parent), (hier_mode, Move_forward 1), (hier_mode, Move_to_child),
         (flat_mode, Move_to_top), (flat_mode, Move_to_bottom)] (view4 (Some 30) 5)
       = Some (view4 (Some 40) 16)
   \<and> valid_selection (store (view4 (Some 40) 16)) (selected_ptr (view4 (Some 40) 16))"
proof -
  let ?cs = "[(hier_mode, Move_to_parent), (hier_mode, Move_forward 1), (hier_mode, Move_to_child),
         (flat_mode, Move_to_top), (flat_mode, Move_to_bottom)]"
  have "valid_selection store4 (Some (fst (dirs4 ! 2)))"
    by (rule valid_selectionI[OF store_list_dirs4]) (simp add: dirs4_def)
  then have v: "valid_selection (store (view4 (Some 30) 5)) (selected_ptr (view4 (Some 30) 5))"
    by (simp add: view4_def dirs4_def)
  have e: "exec_commands extern0 ?cs (view4 (Some 30) 5) = Some (view4 (Some 40) 16)"
    by (simp add: parent_view4 forw_hier_view4 check_focus_view4 child_view4_last)
       (simp add: tree_move_to_top_def tree_move_to_bottom_def view4_def store4_def tlines_def)
  from selection_stays_valid [OF v rescan_keeps_valid_extern0, of ?cs] e v
  show ?thesis
    by (simp add: rescan_keeps_valid_extern0)
qed

subsection \<open>The bound on the offset\<close>

lemma tlines_upd [simp]:
  "tlines g (t\<lparr>selected_ptr := p, topdiff := d\<rparr>) = tlines g t"
  "tlines g (t\<lparr>store := st, selected_ptr := p\<rparr>) = tlines g t"
  by (simp_all add: tlines_def)

lemma in_bounds_check_focus: "7 \<le> tlines g t \<Longrightarrow> in_bounds g (tree_check_focus g t)"
  by (simp add: in_bounds_def topdiff_check_focus)

lemma mc_tree_cmd_rescan_frame:
  "mc_tree_cmd_rescan x t = Some t1 \<Longrightarrow> topdiff t1 = topdiff t \<and> tlines g t1 = tlines g t"
  by (auto simp: mc_tree_cmd_rescan_def tlines_def
      split: option.splits if_splits Option.bind_splits prod.splits)

text \<open>
  C2 (as amended). With at least 7 visible rows the offset is within its bound after
  focus correction, hence after \<^verbatim>\<open>tree_move_forward\<close>, \<^verbatim>\<open>tree_move_backward\<close>,
  \<^verbatim>\<open>search_tree\<close> and, when there is a selection, \<^verbatim>\<open>tree_move_to_parent\<close>;
  \<^verbatim>\<open>tree_move_to_child\<close> keeps an offset that is within the bound within it;
  \<^verbatim>\<open>tree_move_to_bottom\<close> leaves the upper bound, and \<^verbatim>\<open>tree_move_to_top\<close> leaves 0.
\<close>

theorem topdiff_bound_after_focus_correction:
  assumes "7 \<le> tlines g t"
  shows "in_bounds g (tree_check_focus g t)
     \<and> (\<forall>i t'. tree_move_forward g t i = Some t' \<longrightarrow> in_bounds g t')
     \<and> (\<forall>i t'. tree_move_backward g t i = Some t' \<longrightarrow> in_bounds g t')
     \<and> (\<forall>t' b. selected_ptr t \<noteq> None \<and> tree_move_to_parent g t = Some (t', b) \<longrightarrow> in_bounds g t')
     \<and> (\<forall>pat t' found. search_tree g t pat = Some (t', found) \<longrightarrow> in_bounds g t')
     \<and> (\<forall>x t' ev. in_bounds g t \<and> tree_move_to_child x g t = Some (t', ev) \<longrightarrow> in_bounds g t')
     \<and> in_bounds g (tree_move_to_bottom g t)
     \<and> topdiff (tree_move_to_top t) = 0
     \<and> topdiff (tree_move_to_bottom g t) = tlines g t - 4"
proof (intro conjI allI impI)
  show "in_bounds g (tree_check_focus g t)"
    by (rule in_bounds_check_focus[OF assms])
next
  fix i t' assume "tree_move_forward g t i = Some t'"
  then show "in_bounds g t'"
    using assms
    by (auto simp: tree_move_forward_def intro!: in_bounds_check_focus
        split: if_splits Option.bind_splits prod.splits)
next
  fix i t' assume "tree_move_backward g t i = Some t'"
  then show "in_bounds g t'"
    using assms
    by (auto simp: tree_move_backward_def intro!: in_bounds_check_focus
        split: if_splits Option.bind_splits prod.splits)
next
  fix t' b assume "selected_ptr t \<noteq> None \<and> tree_move_to_parent g t = Some (t', b)"
  then show "in_bounds g t'"
    using assms
    by (auto simp: tree_move_to_parent_def Let_def intro!: in_bounds_check_focus
        split: if_splits Option.bind_splits prod.splits)
next
  fix pat t' found assume "search_tree g t pat = Some (t', found)"
  then show "in_bounds g t'"
    using assms
    by (auto simp: search_tree_def intro!: in_bounds_check_focus
        split: if_splits Option.bind_splits prod.splits)
next
  fix x t' ev assume a: "in_bounds g t \<and> tree_move_to_child x g t = Some (t', ev)"
  show "in_bounds g t'"
  proof (cases "selected_ptr t = None")
    case True
    with a show ?thesis by (auto simp add: tree_move_to_child_def)
  next
    case False
    with a obtain cur c where ct: "child_test t = Some (cur, c)"
      by (auto simp: tree_move_to_child_def split: Option.bind_splits)
    show ?thesis
    proof (cases c)
      case True
      with a False ct assms show ?thesis
        by (auto simp: tree_move_to_child_def intro!: in_bounds_check_focus)
    next
      case F: False
      with a False ct obtain t1 cur1 c1 where
        t1: "mc_tree_cmd_rescan x t = Some t1" and ct1: "child_test t1 = Some (cur1, c1)"
        by (auto simp: tree_move_to_child_def split: Option.bind_splits)
      from mc_tree_cmd_rescan_frame[OF t1, of g]
      have fr: "topdiff t1 = topdiff t" "tlines g t1 = tlines g t" by simp_all
      show ?thesis
      proof (cases c1)
        case True
        with a False ct F t1 ct1 fr assms show ?thesis
          by (auto simp: tree_move_to_child_def intro!: in_bounds_check_focus)
      next
        case F1: False
        with a False ct F t1 ct1 fr show ?thesis
          by (auto simp: tree_move_to_child_def in_bounds_def)
      qed
    qed
  qed
next
  show "in_bounds g (tree_move_to_bottom g t)"
    using assms by (simp add: tree_move_to_bottom_def in_bounds_def tlines_def)
next
  show "topdiff (tree_move_to_top t) = 0"
    by (simp add: tree_move_to_top_def)
next
  show "topdiff (tree_move_to_bottom g t) = tlines g t - 4"
    by (simp add: tree_move_to_bottom_def tlines_def)
qed

lemma forw_flat_view4:
  "tree_move_forward flat_mode (view4 (Some 20) td) 1
     = Some (tree_check_focus flat_mode (view4 (Some 30) (td + 1)))"
proof -
  have "forw_ptr (mem store4) (Some 20) 1 = Some (Some 30, 1)"
    by (simp add: forw_ptr_def mem_store4 fields_dirs4)
  then show ?thesis
    by (simp add: tree_move_forward_def flat_mode_def view4_def)
qed

theorem topdiff_bound_after_focus_correction_witness:
  "7 \<le> tlines flat_mode (view4 (Some 20) 30)
   \<and> tree_move_forward flat_mode (view4 (Some 20) 30) 1 = Some (view4 (Some 30) 16)
   \<and> in_bounds flat_mode (view4 (Some 30) 16)"
proof -
  have h: "7 \<le> tlines flat_mode (view4 (Some 20) 30)"
    by (simp add: tlines_def view4_def)
  have e: "tree_move_forward flat_mode (view4 (Some 20) 30) 1 = Some (view4 (Some 30) 16)"
    by (simp add: forw_flat_view4) (simp add: tree_check_focus_def tlines_def view4_def)
  have "in_bounds flat_mode (view4 (Some 30) 16)"
    by (rule topdiff_bound_after_focus_correction
          [OF h, THEN conjunct2, THEN conjunct1, rule_format, OF e])
  with h e show ?thesis by simp
qed

text \<open>
  C2 as stated fails: \<^verbatim>\<open>tree_move_to_top\<close> takes a view whose offset is within the bound
  to one that has a selection and the offset 0.
\<close>

theorem tree_move_to_top_leaves_bounds:
  "in_bounds flat_mode (view4 (Some 30) 5)
   \<and> selected_ptr (tree_move_to_top (view4 (Some 30) 5)) = Some 10
   \<and> topdiff (tree_move_to_top (view4 (Some 30) 5)) = 0
   \<and> \<not> in_bounds flat_mode (tree_move_to_top (view4 (Some 30) 5))"
  by (simp add: in_bounds_def tree_move_to_top_def view4_def store4_def tlines_def)

subsection \<open>The search, key by key\<close>








lemma view3_fields [simp]:
  "search_buffer (view3 sel buf td) = buf"
  "is_panel (view3 sel buf td) = False"
  "selected_ptr (view3 sel buf td) = sel"
  "topdiff (view3 sel buf td) = td"
  "(view3 sel buf td)\<lparr>search_buffer := b\<rparr> = view3 sel b td"
  "(view3 sel buf td)\<lparr>topdiff := d\<rparr> = view3 sel buf d"
  "(view3 sel buf td)\<lparr>selected_ptr := p\<rparr> = view3 p buf td"
  by (simp_all add: view3_def)












text \<open>
  With a buffer that fills the array but for its NUL, \<^verbatim>\<open>l < sizeof (tree->search_buffer)\<close>
  holds: the key is stored in the last byte and the NUL behind the array.
\<close>

lemma tree_do_search_full_buffer:
  assumes "key \<noteq> 0" and "key \<noteq> KEY_BACKSPACE x"
    and "length (search_buffer t) + 1 = MC_MAXFILENAMELEN x"
  shows "tree_do_search x g t key = None"
  using assms by (simp add: tree_do_search_def)

end
